theory Spec2Isabelle
  imports Main "HOL-Library.Word" "HOL-Library.AList" "HOL-Library.List_Lexorder" "HOL-Library.Char_ord"
begin

unbundle bit_operations_syntax

chapter \<open>The model\<close>

section \<open>RPC client options (client.go: parseOptions, Dial, DialHTTP, XDial)\<close>

text \<open>
  Go's \<open>Option\<close> struct. \<open>MagicNumber\<close> is a Go \<open>int\<close>, the two timeouts are
  \<open>time.Duration\<close> values (nanoseconds), \<open>CodecType\<close> is a string.
\<close>

record Option =
  MagicNumber :: int
  CodecType :: string
  ConnectTimeout :: int
  HandleTimeout :: int

text \<open>The package constant \<open>MagicNumber = 0x3bef5c\<close> (the field has the same name in Go).\<close>

definition MagicNumber_const :: int where
  "MagicNumber_const = 0x3bef5c"

definition Second :: int where
  "Second = 1000000000"

text \<open>
  \<open>DefaultOption\<close>. The constant \<open>codec.GobType\<close> is declared in the codec package,
  which is not among the source files, so it is the parameter \<open>gob\<close>. The variable is
  assigned once, at its declaration, and nowhere else, so it is a constant here.
\<close>

definition DefaultOption :: "string \<Rightarrow> Option" where
  "DefaultOption gob =
     \<lparr>MagicNumber = MagicNumber_const, CodecType = gob,
      ConnectTimeout = 10 * Second, HandleTimeout = 0\<rparr>"

text \<open>
  \<open>parseOptions(opts ...*Option)\<close>: a nil pointer is \<open>None\<close>; the error is its message.
\<close>

definition parseOptions :: "string \<Rightarrow> Option option list \<Rightarrow> string + Option" where
  "parseOptions gob opts =
     (if length opts = 0 \<or> hd opts = None then Inr (DefaultOption gob)
      else if length opts \<noteq> 1 then Inl ''number of options is more than 1''
      else (let opt = the (hd opts);
                opt = opt\<lparr>MagicNumber := MagicNumber (DefaultOption gob)\<rparr>;
                opt = (if CodecType opt = [] then opt\<lparr>CodecType := CodecType (DefaultOption gob)\<rparr>
                       else opt)
            in Inr opt))"

text \<open>
  What a constructor writes on the connection. \<open>NewClient\<close> looks the codec up in
  \<open>codec.NewCodecFuncMap\<close> (its key set is the parameter \<open>codecs\<close>) and, when it is
  there, JSON-encodes the option it was given; \<open>None\<close> means that nothing is sent.
  \<open>NewHTTPClient\<close> does the same after a successful CONNECT exchange (\<open>http_ok\<close>).
\<close>

definition NewClient :: "string set \<Rightarrow> Option \<Rightarrow> Option option" where
  "NewClient codecs opt = (if CodecType opt \<in> codecs then Some opt else None)"

definition NewHTTPClient :: "string set \<Rightarrow> bool \<Rightarrow> Option \<Rightarrow> Option option" where
  "NewHTTPClient codecs http_ok opt = (if http_ok then NewClient codecs opt else None)"

text \<open>
  \<open>dialTimeout\<close>: the options are parsed first, then the connection is dialled
  (\<open>dial_ok\<close> says whether \<open>net.DialTimeout\<close> succeeded), then the constructor \<open>f\<close>
  runs on the parsed option. The result is the option put on the wire, if any; the
  connect timeout decides what \<open>dialTimeout\<close> returns, not what the constructor
  sends.
\<close>

definition dialTimeout ::
  "(Option \<Rightarrow> Option option) \<Rightarrow> string \<Rightarrow> bool \<Rightarrow> Option option list \<Rightarrow> Option option" where
  "dialTimeout f gob dial_ok opts =
     (case parseOptions gob opts of
        Inl err \<Rightarrow> None
      | Inr opt \<Rightarrow> if \<not> dial_ok then None else f opt)"

definition Dial :: "string set \<Rightarrow> string \<Rightarrow> bool \<Rightarrow> Option option list \<Rightarrow> Option option" where
  "Dial codecs gob dial_ok opts = dialTimeout (NewClient codecs) gob dial_ok opts"

definition DialHTTP ::
  "string set \<Rightarrow> bool \<Rightarrow> string \<Rightarrow> bool \<Rightarrow> Option option list \<Rightarrow> Option option" where
  "DialHTTP codecs http_ok gob dial_ok opts =
     dialTimeout (NewHTTPClient codecs http_ok) gob dial_ok opts"

text \<open>\<open>strings.Split(s, sep)\<close> for a separator of one byte.\<close>

fun Split :: "string \<Rightarrow> char \<Rightarrow> string list" where
  "Split [] sep = [[]]"
| "Split (c # cs) sep =
     (if c = sep then [] # Split cs sep
      else (case Split cs sep of p # ps \<Rightarrow> (c # p) # ps | [] \<Rightarrow> [[c]]))"

definition XDial ::
  "string set \<Rightarrow> string \<Rightarrow> bool \<Rightarrow> string \<Rightarrow> Option option list \<Rightarrow> Option option" where
  "XDial codecs gob dial_ok rpcAddr opts =
     (let parts = Split rpcAddr CHR ''@''
      in if length parts \<noteq> 2 then None else Dial codecs gob dial_ok opts)"

text \<open>The server's check in \<open>ServeConn\<close>: the connection is dropped unless it holds.\<close>

definition magic_accepted :: "Option \<Rightarrow> bool" where
  "magic_accepted opt = (\<not> (MagicNumber opt \<noteq> MagicNumber_const))"

section \<open>The ID generator (snowflake.go)\<close>

text \<open>
  Go's \<open>int64\<close> values are integers here; \<open>wrap64\<close> is the two's-complement
  wrap-around of an \<open>int64\<close> result, written wherever an operation can leave the
  64-bit range (subtraction, addition, left shift).
\<close>

definition wrap64 :: "int \<Rightarrow> int" where
  "wrap64 x = signed_take_bit 63 x"

definition shl64 :: "int \<Rightarrow> nat \<Rightarrow> int" where
  "shl64 x n = wrap64 (push_bit n x)"

text \<open>Go's \<open>%\<close> on integers truncates towards zero: the result has the sign of the dividend.\<close>

definition rem64 :: "int \<Rightarrow> int \<Rightarrow> int" where
  "rem64 a b = sgn a * (\<bar>a\<bar> mod \<bar>b\<bar>)"

definition epoch :: int where
  "epoch = 1719792000000"

definition nodeBits :: nat where
  "nodeBits = 10"

definition sequenceBits :: nat where
  "sequenceBits = 12"

definition maxNodeID :: int where
  "maxNodeID = (-1) XOR (push_bit nodeBits (-1))"

definition maxSequence :: int where
  "maxSequence = (-1) XOR (push_bit sequenceBits (-1))"

definition nodeShift :: nat where
  "nodeShift = sequenceBits"

definition timestampShift :: nat where
  "timestampShift = sequenceBits + nodeBits"

record Snowflake =
  lastTimestamp :: int
  nodeID :: int
  sequence :: int

definition NewSnowflake :: "int \<Rightarrow> string + Snowflake" where
  "NewSnowflake n =
     (if n < 0 \<or> n > maxNodeID then Inl ''node id must be between 0 and 1023''
      else Inr \<lparr>lastTimestamp = 0, nodeID = n, sequence = 0\<rparr>)"

text \<open>
  \<open>currentTimestamp()\<close> reads the wall clock in milliseconds. The clock is the sequence
  \<open>clock\<close> of its successive readings; the number of readings taken so far is threaded
  through every function that reads it.

  The busy-wait of \<open>Generate\<close>, \<open>for timestamp <= s.lastTimestamp { timestamp =
  currentTimestamp() }\<close>, runs for as long as the clock does not advance: not returning
  is the value \<open>None\<close>.
\<close>

partial_function (option) wait_next ::
  "(nat \<Rightarrow> int) \<Rightarrow> int \<Rightarrow> int \<Rightarrow> nat \<Rightarrow> (int \<times> nat) option" where
  "wait_next clock lastTs timestamp k =
     (if timestamp \<le> lastTs then wait_next clock lastTs (clock k) (Suc k)
      else Some (timestamp, k))"

definition make_id :: "int \<Rightarrow> Snowflake \<Rightarrow> int" where
  "make_id timestamp s =
     (shl64 (wrap64 (timestamp - epoch)) timestampShift) OR
     (shl64 (nodeID s) nodeShift) OR
     sequence s"

text \<open>\<open>Generate\<close> returns the ID, the updated generator and the number of clock readings.\<close>

definition Generate ::
  "(nat \<Rightarrow> int) \<Rightarrow> nat \<Rightarrow> Snowflake \<Rightarrow> (int \<times> Snowflake \<times> nat) option" where
  "Generate clock k s =
     (let timestamp = clock k; k = Suc k in
      if timestamp = lastTimestamp s then
        (let s = s\<lparr>sequence := (wrap64 (sequence s + 1)) AND maxSequence\<rparr> in
         if sequence s = 0 then
           (case wait_next clock (lastTimestamp s) timestamp k of
              None \<Rightarrow> None
            | Some (timestamp, k) \<Rightarrow>
                (let s = s\<lparr>lastTimestamp := timestamp\<rparr>
                 in Some (make_id timestamp s, s, k)))
         else
           (let s = s\<lparr>lastTimestamp := timestamp\<rparr>
            in Some (make_id timestamp s, s, k)))
      else
        (let s = s\<lparr>sequence := 0\<rparr>;
             s = s\<lparr>lastTimestamp := timestamp\<rparr>
         in Some (make_id timestamp s, s, k)))"

text \<open>
  \<open>hash/fnv\<close>'s 32-bit FNV-1a (\<open>New32a\<close>, \<open>Write\<close>, \<open>Sum32\<close>): starting from the
  offset basis, each byte is xor-ed in and the hash is multiplied by the prime, in
  32-bit arithmetic.
\<close>

definition offset32 :: "32 word" where
  "offset32 = 2166136261"

definition prime32 :: "32 word" where
  "prime32 = 16777619"

definition fnv1a_32 :: "string \<Rightarrow> 32 word" where
  "fnv1a_32 bs = foldl (\<lambda>h c. (h XOR of_nat (of_char c)) * prime32) offset32 bs"

definition getNodeID :: "string \<Rightarrow> string \<Rightarrow> int" where
  "getNodeID ip port =
     (let addr = ip @ '':'' @ port;
          h = fnv1a_32 addr
      in rem64 (uint h) maxNodeID)"

text \<open>
  \<open>GenerateID\<close> ignores the error of \<open>NewSnowflake\<close>; a nil generator would make
  \<open>Generate\<close> panic, which is \<open>None\<close> as well.
\<close>

definition GenerateID ::
  "(nat \<Rightarrow> int) \<Rightarrow> nat \<Rightarrow> string \<Rightarrow> string \<Rightarrow> (int \<times> Snowflake \<times> nat) option" where
  "GenerateID clock k ip port =
     (case NewSnowflake (getNodeID ip port) of
        Inl err \<Rightarrow> None
      | Inr snowflake \<Rightarrow> Generate clock k snowflake)"

text \<open>
  \<open>fits ts\<close>: the timestamp lies in the 41 bits that the ID layout leaves above the
  node and sequence fields (\<open>64 - 1 - 22\<close>), counted from the epoch.
  \<open>snowflake_ok\<close>: the generator's node and sequence fields are within their widths, as
  they are for every generator that \<open>NewSnowflake\<close> returns and \<open>Generate\<close> updates.
\<close>

definition fits :: "int \<Rightarrow> bool" where
  "fits ts = (epoch \<le> ts \<and> ts - epoch < 2 ^ 41)"

definition snowflake_ok :: "Snowflake \<Rightarrow> bool" where
  "snowflake_ok s =
     (0 \<le> nodeID s \<and> nodeID s \<le> maxNodeID \<and> 0 \<le> sequence s \<and> sequence s \<le> maxSequence)"

text \<open>
  Two clocks: one that advances by a millisecond every second reading, and one that
  passes from the last millisecond of the 41-bit window to the first one after it.
\<close>

definition clock_halves :: "nat \<Rightarrow> int" where
  "clock_halves i = epoch + 1 + int (i div 2)"

definition clock_2094 :: "nat \<Rightarrow> int" where
  "clock_2094 i = (if i = 0 then epoch + 2 ^ 41 - 1 else epoch + 2 ^ 41)"

section \<open>The LRU store (lru.go)\<close>

text \<open>
  An \<open>entry\<close> is a key with its value. \<open>Value\<close> is an interface with the one method
  \<open>Len() int\<close>: the values are of any type \<open>'v\<close>, and \<open>Len\<close> is the parameter \<open>vlen\<close>
  of every function that measures a value.
\<close>

record 'v entry =
  key :: string
  val :: 'v

text \<open>
  The \<open>Cache\<close>. The list \<open>ll\<close> holds the entries from the front (most recently used) to
  the back. The Go map \<open>cache\<close> sends each stored key to its element of \<open>ll\<close>; it is
  kept in step with the list by every method, so a look-up in it is a search of \<open>ll\<close>
  for the key (\<open>lookup\<close>), and the keys of \<open>ll\<close> are distinct. \<open>evicted\<close> records the
  calls of \<open>OnEvicted\<close>, when one is set, in their order. The byte counts are \<open>int64\<close>;
  a store that fits in memory stays far below \<open>2^63\<close>, so they are plain integers.
\<close>

record 'v Cache =
  maxBytes :: int
  nbytes :: int
  ll :: "'v entry list"
  evicted :: "'v entry list"




text \<open>The bytes charged for an entry: \<open>int64(len(kv.key)) + int64(kv.value.Len())\<close>.\<close>

definition charge :: "('v \<Rightarrow> int) \<Rightarrow> 'v entry \<Rightarrow> int" where
  "charge vlen e = int (length (key e)) + vlen (val e)"






definition Cache_Len :: "'v Cache \<Rightarrow> int" where
  "Cache_Len c = int (length (ll c))"



text \<open>The bytes charged for a list of entries.\<close>

definition total :: "('v \<Rightarrow> int) \<Rightarrow> 'v entry list \<Rightarrow> int" where
  "total vlen es = sum_list (map (charge vlen) es)"




section \<open>The consistent-hash ring (consistenthash.go)\<close>

text \<open>
  The default hash, \<open>crc32.ChecksumIEEE\<close> of the standard library: the reflected
  CRC-32 with polynomial \<open>0xEDB88320\<close>, one bit at a time.
\<close>

fun crc_bits :: "nat \<Rightarrow> 32 word \<Rightarrow> 32 word" where
  "crc_bits 0 crc = crc"
| "crc_bits (Suc n) crc =
     crc_bits n (if crc AND 1 = 1 then drop_bit 1 crc XOR 0xEDB88320 else drop_bit 1 crc)"

definition ChecksumIEEE :: "string \<Rightarrow> 32 word" where
  "ChecksumIEEE data =
     foldl (\<lambda>crc b. crc_bits 8 (crc XOR of_nat (of_char b))) 0xFFFFFFFF data XOR 0xFFFFFFFF"

text \<open>\<open>strconv.Itoa\<close>: the decimal digits of an integer.\<close>

fun digits :: "nat \<Rightarrow> string" where
  "digits n =
     (if n < 10 then [''0123456789'' ! n]
      else digits (n div 10) @ [''0123456789'' ! (n mod 10)])"

definition Itoa :: "int \<Rightarrow> string" where
  "Itoa i = (if i < 0 then CHR ''-'' # digits (nat (- i)) else digits (nat i))"

text \<open>
  The \<open>Map\<close>: the hash function, the number of virtual nodes per peer, the ring of
  hash values and the table from a hash value to the peer that owns it. A hash value
  is the \<open>uint32\<close> converted to \<open>int\<close> (64 bits), so it is the unsigned value.
\<close>

record Map =
  hash :: "string \<Rightarrow> 32 word"
  replicas :: int
  keys :: "int list"
  hashMap :: "int \<rightharpoonup> string"

text \<open>\<open>New(replicas, fn)\<close>; a nil \<open>fn\<close> is \<open>None\<close>.\<close>

definition consistenthash_New :: "int \<Rightarrow> (string \<Rightarrow> 32 word) option \<Rightarrow> Map" where
  "consistenthash_New r fn =
     \<lparr>hash = (case fn of None \<Rightarrow> ChecksumIEEE | Some f \<Rightarrow> f),
      replicas = r, keys = [], hashMap = Map.empty\<rparr>"

text \<open>
  \<open>Add\<close>: the loop \<open>for i := 0; i < m.replicas; i++\<close> runs its body
  (\<open>Add_virtual\<close>) for \<open>i = 0, \<dots>, replicas - 1\<close>, not at all when
  \<open>replicas \<le> 0\<close>; then the ring is sorted.
\<close>

definition Add_virtual :: "string \<Rightarrow> Map \<Rightarrow> nat \<Rightarrow> Map" where
  "Add_virtual k m i =
     (let h = uint (hash m (Itoa (int i) @ k))
      in m\<lparr>keys := keys m @ [h], hashMap := (hashMap m)(h \<mapsto> k)\<rparr>)"

definition Map_Add :: "Map \<Rightarrow> string \<Rightarrow> Map" where
  "Map_Add m k =
     (let m = foldl (Add_virtual k) m [0..<nat (replicas m)]
      in m\<lparr>keys := sort (keys m)\<rparr>)"

text \<open>
  \<open>sort.Search(n, f)\<close> of the standard library: a binary search for the least index
  in \<open>[0, n)\<close> at which \<open>f\<close> holds, \<open>n\<close> if there is none.
\<close>

function Search_loop :: "(nat \<Rightarrow> bool) \<Rightarrow> nat \<Rightarrow> nat \<Rightarrow> nat" where
  "Search_loop f i j =
     (if i < j then
        (let h = (i + j) div 2
         in if \<not> f h then Search_loop f (h + 1) j else Search_loop f i h)
      else i)"
  by pat_completeness auto
termination
  by (relation "measure (\<lambda>(f, i, j). j - i)") auto

declare Search_loop.simps [simp del]

definition Search :: "nat \<Rightarrow> (nat \<Rightarrow> bool) \<Rightarrow> nat" where
  "Search n f = Search_loop f 0 n"

definition SearchInts :: "int list \<Rightarrow> int \<Rightarrow> nat" where
  "SearchInts a x = Search (length a) (\<lambda>i. a ! i \<ge> x)"

text \<open>\<open>Get\<close>: a key that is not in the Go map reads as the empty string.\<close>

definition Map_Get :: "Map \<Rightarrow> string \<Rightarrow> string" where
  "Map_Get m k =
     (if length (keys m) = 0 then []
      else
        (let h = uint (hash m k);
             idx = Search (length (keys m)) (\<lambda>i. keys m ! i \<ge> h)
         in case hashMap m (keys m ! (idx mod length (keys m))) of
              None \<Rightarrow> []
            | Some peer \<Rightarrow> peer))"

text \<open>\<open>Remove\<close>: the same loop, with the body \<open>Remove_virtual\<close>.\<close>

definition Remove_virtual :: "string \<Rightarrow> Map \<Rightarrow> nat \<Rightarrow> Map" where
  "Remove_virtual k m i =
     (let h = uint (hash m (Itoa (int i) @ k));
          idx = SearchInts (keys m) h
      in if idx < length (keys m) \<and> keys m ! idx = h
         then m\<lparr>hashMap := (hashMap m)(h := None),
                keys := take idx (keys m) @ drop (idx + 1) (keys m)\<rparr>
         else m)"

definition Map_Remove :: "Map \<Rightarrow> string \<Rightarrow> Map" where
  "Map_Remove m k = foldl (Remove_virtual k) m [0..<nat (replicas m)]"

text \<open>The ring built with \<open>New(r, fn)\<close> by adding the peers \<open>ps\<close> one after the other.\<close>

definition ring_of :: "int \<Rightarrow> (string \<Rightarrow> 32 word) option \<Rightarrow> string list \<Rightarrow> Map" where
  "ring_of r fn ps = foldl Map_Add (consistenthash_New r fn) ps"

text \<open>
  A hash function that a caller may inject (as the tests of such rings do): the length
  of the data. Under it the virtual nodes \<open>0A\<close> and \<open>0B\<close> collide.
\<close>

definition len_hash :: "string \<Rightarrow> 32 word" where
  "len_hash data = of_nat (length data)"

text \<open>
  Every hash value on the ring has an owner in the table, and the owner is one of the
  peers \<open>P\<close>.
\<close>

definition ring_inv :: "string set \<Rightarrow> Map \<Rightarrow> bool" where
  "ring_inv P m = (\<forall>h\<in>set (keys m). \<exists>p\<in>P. hashMap m h = Some p)"

section \<open>The registry (registry.go)\<close>

text \<open>
  Instants (\<open>time.Time\<close>) and durations are integers, in nanoseconds.
\<close>

definition Minute :: int where
  "Minute = 60 * Second"

definition defaultRPCReplice :: int where
  "defaultRPCReplice = 10"

definition defaultTimeout :: int where
  "defaultTimeout = Minute * 5"

text \<open>
  The \<open>RPCRegistery\<close>. The Go map \<open>timeMap\<close> from a peer's address to the instant it was
  last seen is an association list with one pair for each address; the order of the
  list is the order in which a \<open>range\<close> over the map visits the entries, which Go leaves
  open.
\<close>

record RPCRegistery =
  peers :: Map
  timeout :: int
  timeMap :: "(string \<times> int) list"

definition NewRPCRegistery :: RPCRegistery where
  "NewRPCRegistery =
     \<lparr>peers = consistenthash_New defaultRPCReplice None,
      timeout = defaultTimeout,
      timeMap = []\<rparr>"

text \<open>
  \<open>time.Now()\<close> is the parameter \<open>now\<close> of every function that reads the clock; one
  request reads it at one instant.
\<close>

definition set_peer :: "RPCRegistery \<Rightarrow> int \<Rightarrow> string \<Rightarrow> RPCRegistery" where
  "set_peer p now peer =
     p\<lparr>peers := Map_Add (peers p) peer, timeMap := AList.update peer now (timeMap p)\<rparr>"

definition putServer :: "RPCRegistery \<Rightarrow> int \<Rightarrow> string \<Rightarrow> RPCRegistery" where
  "putServer p now addr =
     (case map_of (timeMap p) addr of
        None \<Rightarrow> set_peer p now addr
      | Some s \<Rightarrow> p\<lparr>timeMap := AList.update addr now (timeMap p)\<rparr>)"

text \<open>
  \<open>aliveServers\<close>: one round of the loop over \<open>timeMap\<close> (\<open>aliveServers_step\<close>) either
  appends the address to \<open>alive\<close> or deletes it from the table and the ring; the
  result is sorted with \<open>sort.Strings\<close>, byte by byte.
\<close>

definition aliveServers_step ::
  "int \<Rightarrow> string list \<times> RPCRegistery \<Rightarrow> string \<times> int \<Rightarrow> string list \<times> RPCRegistery" where
  "aliveServers_step now st e =
     (let alive = fst st; p = snd st; addr = fst e; s = snd e
      in if timeout p = 0 \<or> now < s + timeout p then (alive @ [addr], p)
         else (alive, p\<lparr>timeMap := AList.delete addr (timeMap p),
                        peers := Map_Remove (peers p) addr\<rparr>))"

definition aliveServers :: "RPCRegistery \<Rightarrow> int \<Rightarrow> string list \<times> RPCRegistery" where
  "aliveServers p now =
     (let st = foldl (aliveServers_step now) ([], p) (timeMap p)
      in (sort (fst st), snd st))"

text \<open>\<open>strings.Join(elems, sep)\<close>.\<close>

fun Join :: "string list \<Rightarrow> string \<Rightarrow> string" where
  "Join [] sep = []"
| "Join [x] sep = x"
| "Join (x # y # ys) sep = x @ sep @ Join (y # ys) sep"

text \<open>
  A request, as far as the handler reads it: the method and the value of the header
  \<open>X-Geerpc-Server\<close> (\<open>Header.Get\<close> gives the empty string for a header that is not
  there). A response: the status, which is 200 unless \<open>WriteHeader\<close> is called, and
  the header \<open>X-Geerpc-Servers\<close> if it was set.
\<close>

record http_request =
  Method :: string
  X_Geerpc_Server :: string

record http_response =
  status :: nat
  X_Geerpc_Servers :: "string option"

definition StatusInternalServerError :: nat where
  "StatusInternalServerError = 500"

definition StatusMethodNotAllowed :: nat where
  "StatusMethodNotAllowed = 405"

definition ServeHTTP :: "RPCRegistery \<Rightarrow> int \<Rightarrow> http_request \<Rightarrow> RPCRegistery \<times> http_response" where
  "ServeHTTP p now req =
     (if Method req = ''GET'' then
        (let r = aliveServers p now
         in (snd r, \<lparr>status = 200, X_Geerpc_Servers = Some (Join (fst r) '','')\<rparr>))
      else if Method req = ''POST'' then
        (let addr = X_Geerpc_Server req
         in if addr = [] then (p, \<lparr>status = StatusInternalServerError, X_Geerpc_Servers = None\<rparr>)
            else (putServer p now addr, \<lparr>status = 200, X_Geerpc_Servers = None\<rparr>))
      else if Method req = ''DELETE'' then
        (let addr = X_Geerpc_Server req
         in if addr = [] then (p, \<lparr>status = StatusInternalServerError, X_Geerpc_Servers = None\<rparr>)
            else (p\<lparr>timeMap := AList.delete addr (timeMap p),
                    peers := Map_Remove (peers p) addr\<rparr>,
                  \<lparr>status = 200, X_Geerpc_Servers = None\<rparr>))
      else (p, \<lparr>status = StatusMethodNotAllowed, X_Geerpc_Servers = None\<rparr>))"

text \<open>
  What every registry made by \<open>NewRPCRegistery\<close> and used through \<open>ServeHTTP\<close>
  satisfies: one entry for each address, and the time-to-live of five minutes.
\<close>

definition registry_ok :: "RPCRegistery \<Rightarrow> bool" where
  "registry_ok p = (distinct (map fst (timeMap p)) \<and> timeout p = defaultTimeout)"

text \<open>
  One tick of \<open>Cleanup\<close>: the loop over \<open>timeMap\<close> deletes every entry for which
  \<open>s.Add(p.timeout).Before(time.Now())\<close>. \<open>PickPeer\<close> tests the peer it selected in the
  same way.
\<close>

definition Cleanup_step :: "int \<Rightarrow> RPCRegistery \<Rightarrow> string \<times> int \<Rightarrow> RPCRegistery" where
  "Cleanup_step now p e =
     (let addr = fst e; s = snd e
      in if s + timeout p < now
         then p\<lparr>timeMap := AList.delete addr (timeMap p),
                peers := Map_Remove (peers p) addr\<rparr>
         else p)"

definition Cleanup_tick :: "RPCRegistery \<Rightarrow> int \<Rightarrow> RPCRegistery" where
  "Cleanup_tick p now = foldl (Cleanup_step now) p (timeMap p)"

text \<open>
  In the words of the specification, not of \<open>aliveServers\<close>: a peer whose last-seen
  instant precedes \<open>now - TTL\<close> is expired. The peers within the time-to-live at \<open>now\<close>
  are the peers of the table that are not expired.
\<close>

definition expired :: "RPCRegistery \<Rightarrow> int \<Rightarrow> int \<Rightarrow> bool" where
  "expired p now s = (s < now - timeout p)"

definition within_ttl :: "RPCRegistery \<Rightarrow> int \<Rightarrow> string set" where
  "within_ttl p now = {addr. \<exists>s. map_of (timeMap p) addr = Some s \<and> \<not> expired p now s}"

text \<open>
  The new registry after a \<open>POST\<close> of the peer \<open>tcp@a\<close> handled at the instant 0.
\<close>

definition registry_boundary :: RPCRegistery where
  "registry_boundary =
     fst (ServeHTTP NewRPCRegistery 0 \<lparr>Method = ''POST'', X_Geerpc_Server = ''tcp@a''\<rparr>)"

section \<open>The RPC server's request loop (server.go: readRequest, ServeCodec)\<close>

text \<open>
  Modelled from the spec: \<open>codec.Header\<close> (the codec package is not among the source
  files), "Header = (ServiceMethod: string, Seq: uint64, Error: string)".
\<close>

record Header =
  ServiceMethod :: string
  Seq :: nat
  Error :: string

text \<open>
  The codec is an interface. What the server sees of a connection is what the
  successive calls of \<open>ReadHeader\<close> and \<open>ReadBody\<close> return: a connection is the list
  of those results, in order. A call that finds a result of the other kind fails to
  decode it, and a call on the exhausted connection fails with \<open>EOF\<close>.
\<close>

datatype read_result = GotHeader Header | GotBody string | Failed string

type_synonym codec = "read_result list"

fun ReadHeader :: "codec \<Rightarrow> (string + Header) \<times> codec" where
  "ReadHeader [] = (Inl ''EOF'', [])"
| "ReadHeader (GotHeader h # cc) = (Inr h, cc)"
| "ReadHeader (Failed e # cc) = (Inl e, cc)"
| "ReadHeader (GotBody b # cc) = (Inl ''decode error'', cc)"

fun ReadBody :: "codec \<Rightarrow> (string + string) \<times> codec" where
  "ReadBody [] = (Inl ''EOF'', [])"
| "ReadBody (GotBody b # cc) = (Inr b, cc)"
| "ReadBody (Failed e # cc) = (Inl e, cc)"
| "ReadBody (GotHeader h # cc) = (Inl ''decode error'', cc)"

text \<open>
  A \<open>request\<close>: its header, its method (the field \<open>method\<close>) and the argument read from
  the body
  (\<open>replyv\<close> is filled by the handler, which is not part of the loop).
\<close>

record request =
  h :: Header
  argv :: string
  req_method :: string

text \<open>The body of a response: the placeholder \<open>invalidRequest\<close> or a reply.\<close>

datatype body = invalidRequest | Reply string

definition readRequestHeader :: "codec \<Rightarrow> (string + Header) \<times> codec" where
  "readRequestHeader cc =
     (case ReadHeader cc of
        (Inl err, cc) \<Rightarrow> (Inl err, cc)
      | (Inr hdr, cc) \<Rightarrow> (Inr hdr, cc))"

text \<open>
  \<open>readRequest\<close> returns a request pointer (nil is \<open>None\<close>) and an error (nil is
  \<open>None\<close>), and leaves the rest of the connection.
\<close>

definition readRequest :: "codec \<Rightarrow> (request option \<times> string option) \<times> codec" where
  "readRequest cc =
     (case readRequestHeader cc of
        (Inl err, cc) \<Rightarrow> ((None, Some err), cc)
      | (Inr hdr, cc) \<Rightarrow>
          (let req = \<lparr>h = hdr, argv = [], req_method = ServiceMethod hdr\<rparr>
           in if req_method req = ''Group.Get'' \<or> req_method req = ''Group.Insert'' \<or>
                 req_method req = ''Group.Delete''
              then (case ReadBody cc of
                      (Inl err, cc) \<Rightarrow> ((Some req, Some err), cc)
                    | (Inr b, cc) \<Rightarrow> ((Some (req\<lparr>argv := b\<rparr>), None), cc))
              else ((None, Some (''rpc server: unknown method '' @ req_method req)), cc)))"

lemma readRequest_shorter:
  assumes "fst (fst (readRequest cc)) \<noteq> None"
  shows "length (snd (readRequest cc)) < length cc"
proof (cases cc)
  case Nil
  with assms show ?thesis
    by (simp add: readRequest_def readRequestHeader_def)
next
  case (Cons r rest)
  show ?thesis
  proof (cases r)
    case (GotHeader hdr)
    have "length (snd (ReadBody rest)) \<le> length rest"
      by (cases rest rule: ReadBody.cases) simp_all
    with Cons GotHeader show ?thesis
      by (auto simp: readRequest_def readRequestHeader_def Let_def split: prod.splits sum.splits)
  next
    case (GotBody b)
    with Cons assms show ?thesis
      by (simp add: readRequest_def readRequestHeader_def)
  next
    case (Failed e)
    with Cons assms show ?thesis
      by (simp add: readRequest_def readRequestHeader_def)
  qed
qed

text \<open>
  The loop of \<open>ServeCodec\<close>. \<open>sent\<close> collects the responses that the loop itself
  writes with \<open>sendResponse\<close>, \<open>handled\<close> the requests it hands to \<open>handleRequest\<close> on a
  goroutine of their own. When the loop ends the codec is closed; the result holds
  what was sent, what was handed over and what was left unread.
\<close>

record served =
  sent :: "(Header \<times> body) list"
  handled :: "request list"
  unread :: codec

function ServeCodec_loop ::
  "codec \<Rightarrow> (Header \<times> body) list \<Rightarrow> request list \<Rightarrow> served" where
  "ServeCodec_loop cc out reqs =
     (let r = readRequest cc; req = fst (fst r); err = snd (fst r); cc' = snd r
      in if err \<noteq> None then
           (if req = None then \<lparr>sent = out, handled = reqs, unread = cc'\<rparr>
            else ServeCodec_loop cc'
                   (out @ [((h (the req))\<lparr>Error := the err\<rparr>, invalidRequest)]) reqs)
         else
           (if req = None then \<lparr>sent = out, handled = reqs, unread = cc'\<rparr>
            else ServeCodec_loop cc' out (reqs @ [the req])))"
  by pat_completeness auto
termination
  by (relation "measure (\<lambda>(cc, out, reqs). length cc)") (auto simp: readRequest_shorter)

declare ServeCodec_loop.simps [simp del]

definition ServeCodec :: "codec \<Rightarrow> served" where
  "ServeCodec cc = ServeCodec_loop cc [] []"

section \<open>Duplicate-call suppression (singleflight.go)\<close>

text \<open>
  \<open>Do\<close> is called by several goroutines at once. The model is an interleaving of
  their steps. A step is what a goroutine does between two points at which another
  one can observe it: a critical section of \<open>g.mu\<close> is one step, and so are the call
  of \<open>fn\<close>, \<open>wg.Done()\<close>, the return from \<open>wg.Wait()\<close> and a \<open>return\<close>. The mutex and
  the wait group order every access to \<open>g.m\<close>, \<open>c.val\<close> and \<open>c.err\<close>, so each step sees
  the effects of the steps before it.

  A \<open>call\<close>: the counter of its wait group and the pair \<open>(c.val, c.err)\<close>, which is
  \<open>None\<close> as long as both hold their zero values. Calls are allocated one after the
  other; the \<open>n\<close>-th call made by \<open>new(call)\<close> is the call \<open>n\<close>.
\<close>

record 'r call =
  wg :: nat
  val_err :: "'r option"

text \<open>
  Where a goroutine stands in \<open>Do\<close>:
  \<^item> \<open>Start\<close>: before \<open>g.mu.Lock()\<close>;
  \<^item> \<open>Waiting c\<close>: it found the call \<open>c\<close> in the map and is in \<open>c.wg.Wait()\<close>;
  \<^item> \<open>Leading c\<close>: it put the new call \<open>c\<close> in the map and is in \<open>fn()\<close>;
  \<^item> \<open>Ran c\<close>: \<open>fn\<close> has returned and its results are stored in \<open>c\<close>;
  \<^item> \<open>Signalled c\<close>: after \<open>c.wg.Done()\<close>;
  \<^item> \<open>Deleted c\<close>: after the critical section with \<open>delete(g.m, key)\<close>;
  \<^item> \<open>Returned c r\<close>: it has returned \<open>r\<close> from the first \<open>return c.val, c.err\<close>;
  \<^item> \<open>LeaderReturned c r\<close>: it has returned \<open>r\<close> from the last one.
\<close>

datatype 'r pc =
    Start
  | Waiting nat
  | Leading nat
  | Ran nat
  | Signalled nat
  | Deleted nat
  | Returned nat "'r option"
  | LeaderReturned nat "'r option"

text \<open>
  The \<open>Group\<close> with the goroutines that use it: the map \<open>m\<close>, the calls allocated so
  far, the place of each goroutine, and the number of times \<open>fn\<close> has been called.
\<close>

record 'r Group =
  m :: "string \<rightharpoonup> nat"
  calls :: "'r call list"
  pcs :: "'r pc list"
  runs :: nat

text \<open>
  One step of goroutine \<open>i\<close>, all goroutines calling \<open>Do(k, fn)\<close> with the same key and
  the same function. \<open>fn\<close> need not return the same results each time, and it need
  not return at all: \<open>fn n\<close> is what its call number \<open>n\<close> returns, and \<open>None\<close> when
  that call never returns to \<open>Do\<close> (it runs forever, or it panics: \<open>Do\<close> has no
  \<open>defer\<close> and no \<open>recover\<close>, so neither \<open>wg.Done()\<close> nor the \<open>delete\<close> is reached).
  \<open>runs\<close> counts the calls of \<open>fn\<close> that have returned.

  The result \<open>None\<close> of a step: the goroutine cannot move (it is blocked in \<open>Wait\<close>,
  or its \<open>fn\<close> does not return, or it has returned, or there is no such goroutine).
\<close>

definition Do_step ::
  "string \<Rightarrow> (nat \<Rightarrow> 'r option) \<Rightarrow> 'r Group \<Rightarrow> nat \<Rightarrow> 'r Group option" where
  "Do_step k fn g i =
     (if length (pcs g) \<le> i then None
      else case pcs g ! i of
        Start \<Rightarrow>
          (case m g k of
             Some c \<Rightarrow> Some (g\<lparr>pcs := (pcs g)[i := Waiting c]\<rparr>)
           | None \<Rightarrow>
               (let c = length (calls g)
                in Some (g\<lparr>calls := calls g @ [\<lparr>wg = 1, val_err = None\<rparr>],
                           m := (m g)(k \<mapsto> c),
                           pcs := (pcs g)[i := Leading c]\<rparr>)))
      | Waiting c \<Rightarrow>
          (if wg (calls g ! c) = 0
           then Some (g\<lparr>pcs := (pcs g)[i := Returned c (val_err (calls g ! c))]\<rparr>)
           else None)
      | Leading c \<Rightarrow>
          (case fn (runs g) of
             None \<Rightarrow> None
           | Some r \<Rightarrow>
               Some (g\<lparr>calls := (calls g)[c := (calls g ! c)\<lparr>val_err := Some r\<rparr>],
                       runs := runs g + 1,
                       pcs := (pcs g)[i := Ran c]\<rparr>))
      | Ran c \<Rightarrow>
          Some (g\<lparr>calls := (calls g)[c := (calls g ! c)\<lparr>wg := wg (calls g ! c) - 1\<rparr>],
                  pcs := (pcs g)[i := Signalled c]\<rparr>)
      | Signalled c \<Rightarrow>
          Some (g\<lparr>m := (m g)(k := None), pcs := (pcs g)[i := Deleted c]\<rparr>)
      | Deleted c \<Rightarrow>
          Some (g\<lparr>pcs := (pcs g)[i := LeaderReturned c (val_err (calls g ! c))]\<rparr>)
      | Returned c r \<Rightarrow> None
      | LeaderReturned c r \<Rightarrow> None)"

text \<open>A schedule is the list of the goroutines that move, in order.\<close>

fun exec ::
  "string \<Rightarrow> (nat \<Rightarrow> 'r option) \<Rightarrow> 'r Group \<Rightarrow> nat list \<Rightarrow> 'r Group option" where
  "exec k fn g [] = Some g"
| "exec k fn g (i # sched) =
     (case Do_step k fn g i of None \<Rightarrow> None | Some g' \<Rightarrow> exec k fn g' sched)"

text \<open>\<open>n\<close> goroutines about to call \<open>Do\<close> on a group with nothing in flight.\<close>

definition cold :: "nat \<Rightarrow> 'r Group" where
  "cold n = \<lparr>m = Map.empty, calls = [], pcs = replicate n Start, runs = 0\<rparr>"

text \<open>
  \<open>leads p c\<close>: the goroutine at \<open>p\<close> is the one that made the call \<open>c\<close> and has not
  yet deleted it from the map. \<open>owns p c\<close>: it is the one that made \<open>c\<close>.
  \<open>returned p\<close>: it has left \<open>Do\<close>.
\<close>

fun leads :: "'r pc \<Rightarrow> nat \<Rightarrow> bool" where
  "leads (Leading c) d = (c = d)"
| "leads (Ran c) d = (c = d)"
| "leads (Signalled c) d = (c = d)"
| "leads p d = False"

fun owns :: "'r pc \<Rightarrow> nat \<Rightarrow> bool" where
  "owns (Leading c) d = (c = d)"
| "owns (Ran c) d = (c = d)"
| "owns (Signalled c) d = (c = d)"
| "owns (Deleted c) d = (c = d)"
| "owns (LeaderReturned c r) d = (c = d)"
| "owns p d = False"

fun returned :: "'r pc \<Rightarrow> bool" where
  "returned (Returned c r) = True"
| "returned (LeaderReturned c r) = True"
| "returned p = False"

text \<open>What the place of a goroutine says about the calls.\<close>

fun phase_ok :: "'r call list \<Rightarrow> 'r pc \<Rightarrow> bool" where
  "phase_ok cs Start = True"
| "phase_ok cs (Waiting c) = (c < length cs)"
| "phase_ok cs (Leading c) = (c < length cs \<and> wg (cs ! c) = 1 \<and> val_err (cs ! c) = None)"
| "phase_ok cs (Ran c) = (c < length cs \<and> wg (cs ! c) = 1 \<and> val_err (cs ! c) \<noteq> None)"
| "phase_ok cs (Signalled c) = (c < length cs \<and> wg (cs ! c) = 0 \<and> val_err (cs ! c) \<noteq> None)"
| "phase_ok cs (Deleted c) = (c < length cs \<and> wg (cs ! c) = 0 \<and> val_err (cs ! c) \<noteq> None)"
| "phase_ok cs (Returned c r) =
     (c < length cs \<and> wg (cs ! c) = 0 \<and> val_err (cs ! c) \<noteq> None \<and> r = val_err (cs ! c))"
| "phase_ok cs (LeaderReturned c r) =
     (c < length cs \<and> wg (cs ! c) = 0 \<and> val_err (cs ! c) \<noteq> None \<and> r = val_err (cs ! c))"

text \<open>The calls whose function has run.\<close>

definition ran :: "'r call list \<Rightarrow> nat" where
  "ran cs = length (filter (\<lambda>c. val_err c \<noteq> None) cs)"

text \<open>
  The invariant of the interleaving: the goroutine that leads a call has it in the
  map; a call has one owner; the call in the map has a leader; every place agrees
  with the calls; every call has an owner; and \<open>fn\<close> has returned once for each
  call with results.
\<close>

definition sf_inv :: "string \<Rightarrow> 'r Group \<Rightarrow> bool" where
  "sf_inv k g =
     ((\<forall>i<length (pcs g). \<forall>c. leads (pcs g ! i) c \<longrightarrow> m g k = Some c) \<and>
      (\<forall>i<length (pcs g). \<forall>j<length (pcs g). \<forall>c.
          owns (pcs g ! i) c \<and> owns (pcs g ! j) c \<longrightarrow> i = j) \<and>
      (\<forall>c. m g k = Some c \<longrightarrow> (\<exists>i<length (pcs g). leads (pcs g ! i) c)) \<and>
      (\<forall>i<length (pcs g). phase_ok (calls g) (pcs g ! i)) \<and>
      (\<forall>c<length (calls g). \<exists>i<length (pcs g). owns (pcs g ! i) c) \<and>
      runs g = ran (calls g))"

text \<open>
  A function whose results differ from call to call: it returns its call number. And
  a function that never returns.
\<close>

definition counting_fn :: "nat \<Rightarrow> nat option" where
  "counting_fn n = Some n"

definition never_fn :: "nat \<Rightarrow> nat option" where
  "never_fn n = None"

text \<open>Every pair stored in a call is the result of one of the calls of \<open>fn\<close> made so far.\<close>

definition results_from :: "(nat \<Rightarrow> 'r option) \<Rightarrow> 'r Group \<Rightarrow> bool" where
  "results_from fn g =
     (\<forall>c<length (calls g). val_err (calls g ! c) \<noteq> None \<longrightarrow>
        (\<exists>x<runs g. val_err (calls g ! c) = fn x))"

text \<open>
  The number of steps that a goroutine at \<open>p\<close> can still take, at most, and the sum
  over all goroutines.
\<close>

fun steps_left :: "'r pc \<Rightarrow> nat" where
  "steps_left Start = 5"
| "steps_left (Leading c) = 4"
| "steps_left (Ran c) = 3"
| "steps_left (Signalled c) = 2"
| "steps_left (Deleted c) = 1"
| "steps_left (Waiting c) = 1"
| "steps_left (Returned c r) = 0"
| "steps_left (LeaderReturned c r) = 0"

definition work_left :: "'r Group \<Rightarrow> nat" where
  "work_left g = sum_list (map steps_left (pcs g))"

chapter \<open>Properties\<close>

section \<open>Properties of the RPC client options\<close>

lemma parseOptions_magic:
  "parseOptions gob opts = Inr opt \<Longrightarrow> MagicNumber opt = MagicNumber_const"
  by (auto simp: parseOptions_def DefaultOption_def Let_def split: if_splits)

lemma parseOptions_codec:
  "parseOptions gob opts = Inr opt \<Longrightarrow>
   CodecType opt = (if length opts = 0 \<or> hd opts = None \<or> CodecType (the (hd opts)) = []
                    then gob else CodecType (the (hd opts)))"
  by (auto simp: parseOptions_def DefaultOption_def Let_def split: if_splits)

lemma dialTimeout_magic:
  assumes "dialTimeout f gob dial_ok opts = Some opt"
    and "\<And>o1 o2. f o1 = Some o2 \<Longrightarrow> o2 = o1"
  shows "MagicNumber opt = MagicNumber_const"
proof -
  from assms(1) obtain x where x: "parseOptions gob opts = Inr x" "f x = Some opt"
    by (auto simp: dialTimeout_def split: sum.splits if_splits)
  from assms(2) [OF x(2)] x(1) show ?thesis
    by (simp add: parseOptions_magic)
qed

lemma NewClient_same: "NewClient codecs o1 = Some o2 \<Longrightarrow> o2 = o1"
  by (auto simp: NewClient_def split: if_splits)

lemma NewHTTPClient_same: "NewHTTPClient codecs http_ok o1 = Some o2 \<Longrightarrow> o2 = o1"
  by (auto simp: NewHTTPClient_def NewClient_def split: if_splits)

text \<open>
  C10. Whatever options a caller passes to \<open>Dial\<close>, \<open>DialHTTP\<close> or \<open>XDial\<close>, an option
  that is put on the wire carries the protocol's magic number \<open>0x3bef5c\<close> (so the
  server's magic-number check accepts it), and \<open>parseOptions\<close> replaces an empty
  \<open>CodecType\<close> by the default codec.
\<close>

theorem dial_magic_number:
  "(Dial codecs gob dial_ok opts = Some opt \<longrightarrow>
      MagicNumber opt = 0x3bef5c \<and> magic_accepted opt \<and> CodecType opt \<in> codecs) \<and>
   (DialHTTP codecs http_ok gob dial_ok opts = Some opt \<longrightarrow>
      MagicNumber opt = 0x3bef5c \<and> magic_accepted opt \<and> CodecType opt \<in> codecs) \<and>
   (XDial codecs gob dial_ok rpcAddr opts = Some opt \<longrightarrow>
      MagicNumber opt = 0x3bef5c \<and> magic_accepted opt \<and> CodecType opt \<in> codecs) \<and>
   (parseOptions gob [Some o1] = Inr opt \<longrightarrow>
      MagicNumber opt = 0x3bef5c \<and>
      CodecType opt = (if CodecType o1 = [] then gob else CodecType o1))"
proof -
  have d: "MagicNumber opt = 0x3bef5c \<and> magic_accepted opt \<and> CodecType opt \<in> codecs"
    if "Dial codecs gob dial_ok opts = Some opt"
  proof -
    have "MagicNumber opt = MagicNumber_const"
      using that dialTimeout_magic [of "NewClient codecs"] NewClient_same
      unfolding Dial_def by blast
    moreover have "CodecType opt \<in> codecs"
      using that
      by (auto simp: Dial_def dialTimeout_def NewClient_def split: sum.splits if_splits)
    ultimately show ?thesis
      by (simp add: magic_accepted_def MagicNumber_const_def)
  qed
  have h: "MagicNumber opt = 0x3bef5c \<and> magic_accepted opt \<and> CodecType opt \<in> codecs"
    if "DialHTTP codecs http_ok gob dial_ok opts = Some opt"
  proof -
    have "MagicNumber opt = MagicNumber_const"
      using that dialTimeout_magic [of "NewHTTPClient codecs http_ok"] NewHTTPClient_same
      unfolding DialHTTP_def by blast
    moreover have "CodecType opt \<in> codecs"
      using that
      by (auto simp: DialHTTP_def dialTimeout_def NewHTTPClient_def NewClient_def
          split: sum.splits if_splits)
    ultimately show ?thesis
      by (simp add: magic_accepted_def MagicNumber_const_def)
  qed
  have x: "MagicNumber opt = 0x3bef5c \<and> magic_accepted opt \<and> CodecType opt \<in> codecs"
    if "XDial codecs gob dial_ok rpcAddr opts = Some opt"
    using that d by (auto simp: XDial_def Let_def split: if_splits)
  have p: "MagicNumber opt = 0x3bef5c \<and>
           CodecType opt = (if CodecType o1 = [] then gob else CodecType o1)"
    if "parseOptions gob [Some o1] = Inr opt"
    using that parseOptions_magic [OF that] parseOptions_codec [OF that]
    by (simp add: MagicNumber_const_def)
  from d h x p show ?thesis by blast
qed

theorem dial_magic_number_witness:
  "Dial {''application/gob''} ''application/gob'' True
      [Some \<lparr>MagicNumber = 0, CodecType = [], ConnectTimeout = 0, HandleTimeout = 0\<rparr>]
    = Some \<lparr>MagicNumber = 0x3bef5c, CodecType = ''application/gob'',
            ConnectTimeout = 0, HandleTimeout = 0\<rparr> \<and>
   DialHTTP {''application/gob''} True ''application/gob'' True
      [Some \<lparr>MagicNumber = 7, CodecType = ''application/gob'', ConnectTimeout = 0, HandleTimeout = 0\<rparr>]
    = Some \<lparr>MagicNumber = 0x3bef5c, CodecType = ''application/gob'',
            ConnectTimeout = 0, HandleTimeout = 0\<rparr> \<and>
   XDial {''application/gob''} ''application/gob'' True ''tcp@host:9011''
      [Some \<lparr>MagicNumber = 0, CodecType = [], ConnectTimeout = 0, HandleTimeout = 0\<rparr>]
    = Some \<lparr>MagicNumber = 0x3bef5c, CodecType = ''application/gob'',
            ConnectTimeout = 0, HandleTimeout = 0\<rparr> \<and>
   magic_accepted \<lparr>MagicNumber = 0x3bef5c, CodecType = ''application/gob'',
            ConnectTimeout = 0, HandleTimeout = 0\<rparr>"
proof -
  let ?o = "\<lparr>MagicNumber = 0x3bef5c, CodecType = ''application/gob'',
            ConnectTimeout = 0, HandleTimeout = 0\<rparr>"
  have a: "Dial {''application/gob''} ''application/gob'' True
      [Some \<lparr>MagicNumber = 0, CodecType = [], ConnectTimeout = 0, HandleTimeout = 0\<rparr>] = Some ?o"
    by (simp add: Dial_def dialTimeout_def parseOptions_def DefaultOption_def NewClient_def
        MagicNumber_const_def Let_def)
  have b: "DialHTTP {''application/gob''} True ''application/gob'' True
      [Some \<lparr>MagicNumber = 7, CodecType = ''application/gob'', ConnectTimeout = 0, HandleTimeout = 0\<rparr>]
      = Some ?o"
    by (simp add: DialHTTP_def dialTimeout_def parseOptions_def DefaultOption_def
        NewHTTPClient_def NewClient_def MagicNumber_const_def Let_def)
  have c: "XDial {''application/gob''} ''application/gob'' True ''tcp@host:9011''
      [Some \<lparr>MagicNumber = 0, CodecType = [], ConnectTimeout = 0, HandleTimeout = 0\<rparr>] = Some ?o"
    by (simp add: XDial_def Dial_def dialTimeout_def parseOptions_def DefaultOption_def
        NewClient_def MagicNumber_const_def Let_def)
  from dial_magic_number [of "{''application/gob''}" "''application/gob''" True
      "[Some \<lparr>MagicNumber = 0, CodecType = [], ConnectTimeout = 0, HandleTimeout = 0\<rparr>]" ?o]
    a b c
  show ?thesis by simp
qed

section \<open>Properties of the ID generator\<close>

subsection \<open>The node identifier\<close>

lemma maxNodeID_eq: "maxNodeID = 1023"
  by (simp add: maxNodeID_def nodeBits_def mask_eq_exp_minus_1)

lemma maxSequence_eq: "maxSequence = 4095"
  by (simp add: maxSequence_def sequenceBits_def mask_eq_exp_minus_1)

text \<open>The hash of one address, computed by rewriting.\<close>

lemma fnv_example: "fnv1a_32 ''127.0.0.1:9001'' = 1885699234"
  by (simp add: fnv1a_32_def offset32_def prime32_def)

lemma rem64_nonneg: "0 \<le> a \<Longrightarrow> 0 < b \<Longrightarrow> rem64 a b = a mod b"
  by (cases "a = 0") (simp_all add: rem64_def)

lemma getNodeID_mod: "getNodeID ip port = uint (fnv1a_32 (ip @ '':'' @ port)) mod 1023"
  by (simp add: getNodeID_def Let_def maxNodeID_eq rem64_nonneg)

text \<open>
  C7 (amended). For every ip and port string, the node identifier that \<open>GenerateID\<close>
  passes to \<open>NewSnowflake\<close> is FNV-1a-32 of \<open>ip:port\<close> reduced modulo
  \<open>maxNodeID = 1023\<close>, not modulo \<open>2^10\<close>: it lies in \<open>0..1022\<close>, and
  \<open>NewSnowflake\<close> accepts it.
\<close>

theorem getNodeID_range:
  "getNodeID ip port = uint (fnv1a_32 (ip @ '':'' @ port)) mod 1023 \<and>
   0 \<le> getNodeID ip port \<and> getNodeID ip port < 1023 \<and>
   NewSnowflake (getNodeID ip port)
     = Inr \<lparr>lastTimestamp = 0, nodeID = getNodeID ip port, sequence = 0\<rparr>"
proof -
  have m: "getNodeID ip port = uint (fnv1a_32 (ip @ '':'' @ port)) mod 1023"
    by (rule getNodeID_mod)
  then have r: "0 \<le> getNodeID ip port" "getNodeID ip port < 1023"
    by simp_all
  then have "NewSnowflake (getNodeID ip port)
     = Inr \<lparr>lastTimestamp = 0, nodeID = getNodeID ip port, sequence = 0\<rparr>"
    by (simp add: NewSnowflake_def maxNodeID_eq)
  with m r show ?thesis by simp
qed

text \<open>
  C7 as stated fails: for the address \<open>127.0.0.1:9001\<close> the hash is 1885699234, whose
  remainder modulo 1023 is 265 and modulo 1024 is 162.
\<close>

theorem getNodeID_mod_1024_counterexample:
  "getNodeID ''127.0.0.1'' ''9001'' \<noteq> uint (fnv1a_32 (''127.0.0.1'' @ '':'' @ ''9001'')) mod 2 ^ 10"
  by (simp add: getNodeID_mod fnv_example)

subsection \<open>Successive identifiers\<close>

lemma wrap64_id: "- (2 ^ 63) \<le> x \<Longrightarrow> x < 2 ^ 63 \<Longrightarrow> wrap64 x = x"
  by (simp add: wrap64_def signed_take_bit_int_eq_self)

lemma push_or_add:
  fixes a b :: int
  assumes "0 \<le> b" "b < 2 ^ n"
  shows "push_bit n a OR b = push_bit n a + b"
proof -
  have b: "take_bit n b = b"
    using assms by (simp add: take_bit_int_eq_self)
  have "push_bit n a AND take_bit n b = 0"
    by (rule bit_eqI) (auto simp: bit_and_iff bit_push_bit_iff bit_take_bit_iff)
  then have "push_bit n a AND b = 0"
    by (simp add: b)
  then show ?thesis
    by (simp add: disjunctive_add_eq_or)
qed

lemma seq_step:
  fixes q :: int
  assumes "0 \<le> q" "q \<le> 4095"
  shows "(wrap64 (q + 1)) AND 4095 = (if q = 4095 then 0 else q + 1)"
proof -
  have w: "wrap64 (q + 1) = q + 1"
    using assms by (intro wrap64_id) auto
  have "(q + 1) AND 4095 = take_bit 12 (q + 1)"
    by (simp add: take_bit_eq_mask mask_eq_exp_minus_1)
  also have "\<dots> = (q + 1) mod 4096"
    by (simp add: take_bit_eq_mod)
  also have "\<dots> = (if q = 4095 then 0 else q + 1)"
    using assms by auto
  finally show ?thesis
    by (simp add: w)
qed

lemma make_id_linear:
  assumes "fits ts" "snowflake_ok s"
  shows "make_id ts s = (ts - epoch) * 2 ^ 22 + nodeID s * 2 ^ 12 + sequence s"
proof -
  from assms have r: "0 \<le> ts - epoch" "ts - epoch < 2 ^ 41"
    and n: "0 \<le> nodeID s" "nodeID s \<le> 1023"
    and q: "0 \<le> sequence s" "sequence s \<le> 4095"
    by (simp_all add: fits_def snowflake_ok_def maxNodeID_eq maxSequence_eq)
  have w1: "wrap64 (ts - epoch) = ts - epoch"
    using r by (intro wrap64_id) auto
  have "(ts - epoch) * 2 ^ 22 < 2 ^ 41 * 2 ^ 22"
    using r by (intro mult_strict_right_mono) auto
  then have w2: "wrap64 ((ts - epoch) * 2 ^ 22) = (ts - epoch) * 2 ^ 22"
    using r by (intro wrap64_id) auto
  have "nodeID s * 2 ^ 12 \<le> 1023 * 2 ^ 12"
    using n by (intro mult_right_mono) auto
  then have nb: "nodeID s * 2 ^ 12 \<le> 4190208"
    by simp
  then have w3: "wrap64 (nodeID s * 2 ^ 12) = nodeID s * 2 ^ 12"
    using n by (intro wrap64_id) auto
  have s1: "shl64 (wrap64 (ts - epoch)) timestampShift = push_bit 22 (ts - epoch)"
    unfolding shl64_def timestampShift_def sequenceBits_def nodeBits_def w1
    using w2 by (simp add: push_bit_eq_mult)
  have s2: "shl64 (nodeID s) nodeShift = push_bit 12 (nodeID s)"
    unfolding shl64_def nodeShift_def sequenceBits_def
    using w3 by (simp add: push_bit_eq_mult)
  have o1: "push_bit 12 (nodeID s) OR sequence s = push_bit 12 (nodeID s) + sequence s"
    using q by (intro push_or_add) auto
  have "0 \<le> push_bit 12 (nodeID s) + sequence s"
    and "push_bit 12 (nodeID s) + sequence s < 2 ^ 22"
    using q n nb by (simp_all add: push_bit_eq_mult)
  then have o2: "push_bit 22 (ts - epoch) OR (push_bit 12 (nodeID s) + sequence s)
                 = push_bit 22 (ts - epoch) + (push_bit 12 (nodeID s) + sequence s)"
    by (rule push_or_add)
  have "make_id ts s = push_bit 22 (ts - epoch) OR (push_bit 12 (nodeID s) OR sequence s)"
    unfolding make_id_def s1 s2 by (simp add: or.assoc)
  also have "\<dots> = push_bit 22 (ts - epoch) + (push_bit 12 (nodeID s) + sequence s)"
    unfolding o1 o2 ..
  finally show ?thesis
    by (simp add: push_bit_eq_mult)
qed

lemma wait_next_done: "lastTs < ts \<Longrightarrow> wait_next clock lastTs ts k = Some (ts, k)"
  by (subst wait_next.simps) simp

lemma wait_next_returns:
  assumes "lastTs < clock j" "k \<le> j" "ts \<le> lastTs"
  shows "\<exists>i. k \<le> i \<and> i \<le> j \<and> lastTs < clock i \<and>
             wait_next clock lastTs ts k = Some (clock i, Suc i)"
  using assms
proof (induction "j - k" arbitrary: k ts)
  case 0
  then have "k = j" by simp
  with 0 show ?case
    by (subst wait_next.simps) (auto simp: wait_next_done)
next
  case (Suc d)
  show ?case
  proof (cases "lastTs < clock k")
    case True
    with Suc.prems show ?thesis
      by (subst wait_next.simps) (auto simp: wait_next_done)
  next
    case False
    from Suc.hyps(2) have d: "d = j - Suc k" and kj: "Suc k \<le> j"
      by simp_all
    from False have "clock k \<le> lastTs" by simp
    from Suc.hyps(1) [OF d Suc.prems(1) kj this]
    obtain i where "Suc k \<le> i" "i \<le> j" "lastTs < clock i"
      "wait_next clock lastTs (clock k) (Suc k) = Some (clock i, Suc i)"
      by blast
    with Suc.prems(3) show ?thesis
      by (subst wait_next.simps) (auto intro!: exI [of _ i])
  qed
qed

lemma Generate_step:
  assumes ok: "snowflake_ok s" and prog: "\<forall>i. \<exists>j. i \<le> j \<and> clock i < clock j"
  shows "\<exists>s' k'. Generate clock k s = Some (make_id (lastTimestamp s') s', s', k') \<and>
           snowflake_ok s' \<and> nodeID s' = nodeID s \<and>
           (\<exists>i. k \<le> i \<and> i < k' \<and> lastTimestamp s' = clock i) \<and>
           ((lastTimestamp s' = lastTimestamp s \<and> sequence s' = sequence s + 1) \<or>
            (clock k \<noteq> lastTimestamp s \<and> lastTimestamp s' = clock k \<and> sequence s' = 0) \<or>
            (lastTimestamp s < lastTimestamp s' \<and> sequence s' = 0))"
proof -
  from ok have q: "0 \<le> sequence s" "sequence s \<le> 4095"
    by (simp_all add: snowflake_ok_def maxSequence_eq)
  consider (fresh) "clock k \<noteq> lastTimestamp s"
    | (same) "clock k = lastTimestamp s" "sequence s \<noteq> 4095"
    | (wrapped) "clock k = lastTimestamp s" "sequence s = 4095"
    by blast
  then show ?thesis
  proof cases
    case fresh
    let ?s = "s\<lparr>sequence := 0, lastTimestamp := clock k\<rparr>"
    have "Generate clock k s = Some (make_id (lastTimestamp ?s) ?s, ?s, Suc k)"
      using fresh by (simp add: Generate_def Let_def)
    moreover have "snowflake_ok ?s"
      using ok by (simp add: snowflake_ok_def maxSequence_eq)
    ultimately show ?thesis
      using fresh by (intro exI [of _ ?s] exI [of _ "Suc k"]) auto
  next
    case same
    let ?s = "s\<lparr>sequence := sequence s + 1, lastTimestamp := clock k\<rparr>"
    have "Generate clock k s = Some (make_id (lastTimestamp ?s) ?s, ?s, Suc k)"
      using same q by (simp add: Generate_def Let_def maxSequence_eq seq_step)
    moreover have "snowflake_ok ?s"
      using ok same q by (simp add: snowflake_ok_def maxSequence_eq)
    ultimately show ?thesis
      using same by (intro exI [of _ ?s] exI [of _ "Suc k"]) auto
  next
    case wrapped
    from prog obtain j where j: "k \<le> j" "clock k < clock j"
      by blast
    then have "k \<noteq> j" by auto
    with j have kj: "Suc k \<le> j" by simp
    from wait_next_returns [of "lastTimestamp s" clock j "Suc k" "clock k"] j kj wrapped
    obtain i where i: "Suc k \<le> i" "lastTimestamp s < clock i"
      "wait_next clock (lastTimestamp s) (clock k) (Suc k) = Some (clock i, Suc i)"
      by auto
    let ?s = "s\<lparr>sequence := 0, lastTimestamp := clock i\<rparr>"
    have "wrap64 4096 AND 4095 = 0"
      using seq_step [of 4095] by simp
    then have "Generate clock k s = Some (make_id (lastTimestamp ?s) ?s, ?s, Suc i)"
      using wrapped i by (simp add: Generate_def Let_def maxSequence_eq)
    moreover have "snowflake_ok ?s"
      using ok by (simp add: snowflake_ok_def maxSequence_eq)
    moreover have "\<exists>m. k \<le> m \<and> m < Suc i \<and> lastTimestamp ?s = clock m"
      using i(1) by (intro exI [of _ i]) simp
    ultimately show ?thesis
      using i(2) by (intro exI [of _ ?s] exI [of _ "Suc i"]) simp
  qed
qed

lemma clock_2094_mono: "i \<le> j \<Longrightarrow> clock_2094 i \<le> clock_2094 j"
  by (simp add: clock_2094_def)

text \<open>
  C8 (amended). On a generator used by one caller at a time, with a clock that never
  goes back and always advances eventually, two successive calls of \<open>Generate\<close> both
  return, and the second ID is greater than the first whenever the timestamps of both
  lie in the 41-bit window after the epoch; this includes the call in which the
  sequence wraps to 0 and the generator waits for the next millisecond.
\<close>

theorem Generate_increasing:
  assumes mono: "\<forall>i j. i \<le> j \<longrightarrow> clock i \<le> clock j"
    and prog: "\<forall>i. \<exists>j. i \<le> j \<and> clock i < clock j"
    and ok: "snowflake_ok s"
  shows "\<exists>id1 s1 k1 id2 s2 k2.
           Generate clock k s = Some (id1, s1, k1) \<and>
           Generate clock k1 s1 = Some (id2, s2, k2) \<and>
           (fits (lastTimestamp s1) \<and> fits (lastTimestamp s2) \<longrightarrow> id1 < id2)"
proof -
  from Generate_step [OF ok prog, of k]
  obtain s1 k1 i where g1: "Generate clock k s = Some (make_id (lastTimestamp s1) s1, s1, k1)"
    and ok1: "snowflake_ok s1" and i: "i < k1" "lastTimestamp s1 = clock i"
    by blast
  from Generate_step [OF ok1 prog, of k1]
  obtain s2 k2 where g2: "Generate clock k1 s1 = Some (make_id (lastTimestamp s2) s2, s2, k2)"
    and ok2: "snowflake_ok s2" and n: "nodeID s2 = nodeID s1"
    and c: "(lastTimestamp s2 = lastTimestamp s1 \<and> sequence s2 = sequence s1 + 1) \<or>
            (clock k1 \<noteq> lastTimestamp s1 \<and> lastTimestamp s2 = clock k1 \<and> sequence s2 = 0) \<or>
            (lastTimestamp s1 < lastTimestamp s2 \<and> sequence s2 = 0)"
    by blast
  have "make_id (lastTimestamp s1) s1 < make_id (lastTimestamp s2) s2"
    if f: "fits (lastTimestamp s1)" "fits (lastTimestamp s2)"
  proof -
    have l1: "make_id (lastTimestamp s1) s1
              = (lastTimestamp s1 - epoch) * 2 ^ 22 + nodeID s1 * 2 ^ 12 + sequence s1"
      by (rule make_id_linear [OF f(1) ok1])
    have l2: "make_id (lastTimestamp s2) s2
              = (lastTimestamp s2 - epoch) * 2 ^ 22 + nodeID s1 * 2 ^ 12 + sequence s2"
      using make_id_linear [OF f(2) ok2] n by simp
    from ok1 have q1: "sequence s1 \<le> 4095"
      by (simp add: snowflake_ok_def maxSequence_eq)
    from c consider (seq) "lastTimestamp s2 = lastTimestamp s1" "sequence s2 = sequence s1 + 1"
      | (time) "lastTimestamp s1 < lastTimestamp s2" "sequence s2 = 0"
    proof (elim disjE conjE)
      assume a: "clock k1 \<noteq> lastTimestamp s1" "lastTimestamp s2 = clock k1" "sequence s2 = 0"
      from mono i have "lastTimestamp s1 \<le> clock k1"
        by (simp add: less_imp_le)
      with a have "lastTimestamp s1 < lastTimestamp s2" by simp
      then show ?thesis using a(3) by (rule that(2))
    qed (auto intro: that)
    then show ?thesis
    proof cases
      case seq
      then show ?thesis unfolding l1 l2 by simp
    next
      case time
      then have "lastTimestamp s1 - epoch + 1 \<le> lastTimestamp s2 - epoch"
        by simp
      then have "(lastTimestamp s1 - epoch + 1) * 2 ^ 22 \<le> (lastTimestamp s2 - epoch) * 2 ^ 22"
        by (rule mult_right_mono) simp
      with q1 time(2) show ?thesis
        unfolding l1 l2 by (simp add: algebra_simps)
    qed
  qed
  with g1 g2 show ?thesis by blast
qed

text \<open>
  The sequence stands at 4095 and the first reading equals the last timestamp: the
  first call wraps the sequence, waits for the next millisecond and returns 8409088;
  the second call, in the same millisecond, returns 8409089.
\<close>

theorem Generate_increasing_witness:
  "\<exists>id1 s1 k1 id2 s2 k2.
     Generate clock_halves 0 \<lparr>lastTimestamp = epoch + 1, nodeID = 5, sequence = 4095\<rparr>
       = Some (id1, s1, k1) \<and>
     Generate clock_halves k1 s1 = Some (id2, s2, k2) \<and>
     fits (lastTimestamp s1) \<and> fits (lastTimestamp s2) \<and> id1 = 8409088 \<and> id2 = 8409089 \<and>
     id1 < id2"
proof -
  let ?s0 = "\<lparr>lastTimestamp = epoch + 1, nodeID = 5, sequence = 4095\<rparr>"
  let ?s1 = "\<lparr>lastTimestamp = epoch + 2, nodeID = 5, sequence = 0\<rparr>"
  let ?s2 = "\<lparr>lastTimestamp = epoch + 2, nodeID = 5, sequence = 1\<rparr>"
  have mono: "\<forall>i j. i \<le> j \<longrightarrow> clock_halves i \<le> clock_halves j"
    by (simp add: clock_halves_def div_le_mono)
  have prog: "\<forall>i. \<exists>j. i \<le> j \<and> clock_halves i < clock_halves j"
  proof
    fix i
    show "\<exists>j. i \<le> j \<and> clock_halves i < clock_halves j"
      by (intro exI [of _ "i + 2"]) (simp add: clock_halves_def)
  qed
  have ok: "snowflake_ok ?s0"
    by (simp add: snowflake_ok_def maxNodeID_eq maxSequence_eq)
  have f: "fits (epoch + 2)"
    by (simp add: fits_def)
  have ok1: "snowflake_ok ?s1" and ok2: "snowflake_ok ?s2"
    by (simp_all add: snowflake_ok_def maxNodeID_eq maxSequence_eq)
  have w: "wait_next clock_halves (epoch + 1) (epoch + 1) (Suc 0) = Some (epoch + 2, 3)"
    apply (subst wait_next.simps)
    apply (simp add: clock_halves_def)
    apply (subst wait_next.simps)
    apply (simp add: clock_halves_def)
    apply (subst wait_next.simps)
    apply (simp add: numeral_3_eq_3)
    done
  have q: "wrap64 4096 AND 4095 = 0"
    using seq_step [of 4095] by simp
  have g1: "Generate clock_halves 0 ?s0 = Some (8409088, ?s1, 3)"
    using w q make_id_linear [OF f ok1]
    by (simp add: Generate_def Let_def maxSequence_eq clock_halves_def)
  have c3: "clock_halves 3 = epoch + 2"
    by (simp add: clock_halves_def)
  have g2: "Generate clock_halves 3 ?s1 = Some (8409089, ?s2, 4)"
    using make_id_linear [OF f ok2] seq_step [of 0]
    by (simp add: Generate_def Let_def maxSequence_eq c3)
  from Generate_increasing [OF mono prog ok, of 0] g1 g2 f
  show ?thesis
    by simp
qed

text \<open>
  C8 as stated fails once the clock leaves the 41-bit window: the shift by 22 bits
  overflows \<open>int64\<close> and the next ID is negative.
\<close>

theorem Generate_overflow_counterexample:
  "Generate clock_2094 0 \<lparr>lastTimestamp = 0, nodeID = 0, sequence = 0\<rparr>
     = Some (9223372036850581504,
             \<lparr>lastTimestamp = epoch + 2 ^ 41 - 1, nodeID = 0, sequence = 0\<rparr>, 1) \<and>
   Generate clock_2094 1 \<lparr>lastTimestamp = epoch + 2 ^ 41 - 1, nodeID = 0, sequence = 0\<rparr>
     = Some (- 9223372036854775808,
             \<lparr>lastTimestamp = epoch + 2 ^ 41, nodeID = 0, sequence = 0\<rparr>, 2) \<and>
   \<not> ((9223372036850581504 :: int) < - 9223372036854775808)"
proof -
  let ?s1 = "\<lparr>lastTimestamp = epoch + 2 ^ 41 - 1, nodeID = 0, sequence = 0\<rparr>"
  have f: "fits (epoch + 2 ^ 41 - 1)"
    by (simp add: fits_def)
  have ok1: "snowflake_ok ?s1"
    by (simp add: snowflake_ok_def maxNodeID_eq maxSequence_eq)
  have g1: "Generate clock_2094 0 \<lparr>lastTimestamp = 0, nodeID = 0, sequence = 0\<rparr>
     = Some (9223372036850581504, ?s1, 1)"
    using make_id_linear [OF f ok1]
    by (simp add: Generate_def Let_def clock_2094_def epoch_def)
  have "signed_take_bit 63 (2 ^ 63 :: int) = - (2 ^ 63)"
    by (simp add: signed_take_bit_eq_take_bit_minus bit_exp_iff take_bit_int_eq_self)
  then have w: "wrap64 9223372036854775808 = - 9223372036854775808"
    by (simp add: wrap64_def)
  have w0: "wrap64 2199023255552 = 2199023255552" "wrap64 0 = 0"
    by (simp_all add: wrap64_id)
  have m2: "make_id (epoch + 2 ^ 41) \<lparr>lastTimestamp = epoch + 2 ^ 41, nodeID = 0, sequence = 0\<rparr>
            = - 9223372036854775808"
    by (simp add: make_id_def shl64_def timestampShift_def nodeShift_def sequenceBits_def
        nodeBits_def w w0 push_bit_eq_mult)
  have g2: "Generate clock_2094 1 ?s1
     = Some (- 9223372036854775808,
             \<lparr>lastTimestamp = epoch + 2 ^ 41, nodeID = 0, sequence = 0\<rparr>, 2)"
    using m2 by (simp add: Generate_def Let_def clock_2094_def)
  from g1 g2 show ?thesis by simp
qed

section \<open>Properties of the LRU store\<close>

subsection \<open>The list operations\<close>

lemma total_simps [simp]:
  "total vlen [] = 0"
  "total vlen (e # es) = charge vlen e + total vlen es"
  "total vlen (es @ fs) = total vlen es + total vlen fs"
  by (simp_all add: total_def)








subsection \<open>The eviction loop\<close>





subsection \<open>Each method keeps the invariant\<close>






subsection \<open>Sequences of calls\<close>








subsection \<open>An entry larger than the capacity\<close>






section \<open>Properties of the consistent-hash ring\<close>

subsection \<open>Adding peers\<close>

lemma Add_virtual_fields [simp]:
  "hash (Add_virtual k rg i) = hash rg"
  "replicas (Add_virtual k rg i) = replicas rg"
  "length (keys (Add_virtual k rg i)) = Suc (length (keys rg))"
  by (simp_all add: Add_virtual_def Let_def)

lemma Add_virtual_inv: "ring_inv P rg \<Longrightarrow> ring_inv (insert k P) (Add_virtual k rg i)"
  by (auto simp: ring_inv_def Add_virtual_def Let_def)

lemma foldl_Add_virtual:
  "replicas (foldl (Add_virtual k) rg ns) = replicas rg \<and>
   hash (foldl (Add_virtual k) rg ns) = hash rg \<and>
   length (keys (foldl (Add_virtual k) rg ns)) = length (keys rg) + length ns"
  by (induction ns arbitrary: rg) simp_all

lemma foldl_Add_virtual_inv:
  "ring_inv (insert k P) rg \<Longrightarrow> ring_inv (insert k P) (foldl (Add_virtual k) rg ns)"
proof (induction ns arbitrary: rg)
  case Nil
  then show ?case by simp
next
  case (Cons n ns)
  from Add_virtual_inv [OF Cons.prems, of k n] have "ring_inv (insert k P) (Add_virtual k rg n)"
    by simp
  then show ?case
    using Cons.IH by simp
qed

lemma ring_inv_mono: "ring_inv P rg \<Longrightarrow> P \<subseteq> Q \<Longrightarrow> ring_inv Q rg"
  by (fastforce simp: ring_inv_def)

lemma Map_Add_fields:
  "replicas (Map_Add rg k) = replicas rg"
  "hash (Map_Add rg k) = hash rg"
  "length (keys (Map_Add rg k)) = length (keys rg) + nat (replicas rg)"
  by (simp_all add: Map_Add_def Let_def foldl_Add_virtual)

lemma Map_Add_inv:
  assumes "ring_inv P rg"
  shows "ring_inv (insert k P) (Map_Add rg k)"
proof -
  from assms have "ring_inv (insert k P) rg"
    by (rule ring_inv_mono) auto
  then have "ring_inv (insert k P) (foldl (Add_virtual k) rg [0..<nat (replicas rg)])"
    by (rule foldl_Add_virtual_inv)
  then show ?thesis
    by (simp add: Map_Add_def Let_def ring_inv_def)
qed

lemma ring_of_snoc: "ring_of r fn (ps @ [p]) = Map_Add (ring_of r fn ps) p"
  by (simp add: ring_of_def)

lemma ring_of_facts:
  "replicas (ring_of r fn ps) = r \<and>
   length (keys (ring_of r fn ps)) = nat r * length ps \<and>
   ring_inv (set ps) (ring_of r fn ps)"
proof (induction ps rule: rev_induct)
  case Nil
  show ?case
    by (simp add: ring_of_def consistenthash_New_def ring_inv_def)
next
  case (snoc p ps)
  then show ?case
    using Map_Add_inv [of "set ps" "ring_of r fn ps" p]
    by (simp add: ring_of_snoc Map_Add_fields)
qed

subsection \<open>Looking a key up\<close>

lemma Map_Get_member:
  assumes "ring_inv P rg" "keys rg \<noteq> []"
  shows "Map_Get rg k \<in> P"
proof -
  let ?h = "uint (hash rg k)"
  let ?idx = "Search (length (keys rg)) (\<lambda>i. keys rg ! i \<ge> ?h)"
  from assms(2) have "?idx mod length (keys rg) < length (keys rg)"
    by simp
  then have "keys rg ! (?idx mod length (keys rg)) \<in> set (keys rg)"
    by (rule nth_mem)
  with assms(1) obtain p where "p \<in> P" "hashMap rg (keys rg ! (?idx mod length (keys rg))) = Some p"
    by (auto simp: ring_inv_def)
  with assms(2) show ?thesis
    by (simp add: Map_Get_def Let_def)
qed

lemma Map_Get_empty: "keys rg = [] \<Longrightarrow> Map_Get rg k = []"
  by (simp add: Map_Get_def)

text \<open>
  C3 (amended). For every ring constructed with a replica factor \<open>R \<ge> 1\<close> by adding
  distinct peers \<open>P\<close>, none of them the empty string, each once: the ordered hash
  sequence has exactly \<open>R * |P|\<close> elements; \<open>Get(k)\<close> returns a member of \<open>P\<close> for
  every key \<open>k\<close> whenever \<open>P\<close> is not empty; and \<open>Get(k)\<close> returns the empty string
  if and only if \<open>P\<close> is empty.
\<close>

theorem ring_of_Get:
  assumes "1 \<le> r" "distinct ps" "[] \<notin> set ps"
  shows "length (keys (ring_of r fn ps)) = nat r * length ps \<and>
         (ps \<noteq> [] \<longrightarrow> Map_Get (ring_of r fn ps) k \<in> set ps) \<and>
         (Map_Get (ring_of r fn ps) k = [] \<longleftrightarrow> ps = [])"
proof -
  note f = ring_of_facts [of r fn ps]
  have mem: "Map_Get (ring_of r fn ps) k \<in> set ps" if "ps \<noteq> []"
  proof -
    from that assms(1) have "0 < nat r * length ps"
      by simp
    with f have "0 < length (keys (ring_of r fn ps))"
      by simp
    then have "keys (ring_of r fn ps) \<noteq> []"
      by auto
    with f show ?thesis
      by (intro Map_Get_member) simp_all
  qed
  have e: "Map_Get (ring_of r fn ps) k = []" if "ps = []"
    using that f by (intro Map_Get_empty) simp
  from mem e assms(3) f show ?thesis
    by metis
qed

text \<open>Two replicas, the peers \<open>A\<close> and \<open>BB\<close>, the injected length hash.\<close>

theorem ring_of_Get_witness:
  "length (keys (ring_of 2 (Some len_hash) [''A'', ''BB''])) = 4 \<and>
   Map_Get (ring_of 2 (Some len_hash) [''A'', ''BB'']) ''Tom'' \<in> set [''A'', ''BB''] \<and>
   Map_Get (ring_of 2 (Some len_hash) [''A'', ''BB'']) ''Tom'' \<noteq> []"
  using ring_of_Get [of 2 "[''A'', ''BB'']" "Some len_hash" "''Tom''"]
  by simp

text \<open>
  C3 as stated fails in two ways. With \<open>New(0, nil)\<close> the loop of \<open>Add\<close> never runs:
  after \<open>Add("a")\<close> the ring is empty and \<open>Get\<close> returns the empty string, which is
  not a peer. And after \<open>Add("")\<close> on \<open>New(1, nil)\<close> every \<open>Get\<close> returns the peer
  \<open>""\<close>, the empty string, although a peer is present.
\<close>

theorem ring_of_Get_counterexample:
  "Map_Get (ring_of 0 None [''a'']) ''Tom'' \<notin> set [''a''] \<and>
   [''a''] \<noteq> [] \<and>
   Map_Get (ring_of 1 None [[]]) ''Tom'' = [] \<and>
   [[]] \<noteq> ([] :: string list)"
proof -
  have "Map_Get (ring_of 0 None [''a'']) ''Tom'' = []"
    by (simp add: Map_Get_def Map_Add_def consistenthash_New_def ring_of_def)
  moreover have "Map_Get (ring_of 1 None [[]]) ''Tom'' \<in> {[]}"
    using ring_of_facts [of 1 None "[[]]"]
    by (intro Map_Get_member) auto
  ultimately show ?thesis by simp
qed

subsection \<open>Removing a peer whose virtual node collides with another's\<close>

text \<open>
  C6. The claim does not hold of the code. With one replica and the length hash, the
  virtual nodes \<open>0A\<close> and \<open>0B\<close> both hash to 2. After \<open>Add("A")\<close>, \<open>Add("B")\<close> the
  ring is \<open>[2, 2]\<close>, the table sends 2 to \<open>B\<close> and every key is routed to \<open>B\<close>.
  \<open>Remove("A")\<close> finds 2 on the ring, deletes the table entry of 2, which \<open>B\<close> owns,
  and takes one 2 off the ring: the ring \<open>[2]\<close> is not empty, its only position has no
  owner, and \<open>Get\<close> returns the empty string for every key although \<open>B\<close> is present.
\<close>

theorem Map_Remove_collision:
  "keys (ring_of 1 (Some len_hash) [''A'', ''B'']) = [2, 2] \<and>
   Map_Get (ring_of 1 (Some len_hash) [''A'', ''B'']) ''Tom'' = ''B'' \<and>
   keys (Map_Remove (ring_of 1 (Some len_hash) [''A'', ''B'']) ''A'') = [2] \<and>
   hashMap (Map_Remove (ring_of 1 (Some len_hash) [''A'', ''B'']) ''A'') 2 = None \<and>
   Map_Get (Map_Remove (ring_of 1 (Some len_hash) [''A'', ''B'']) ''A'') ''Tom'' = []"
proof -
  have r: "ring_of 1 (Some len_hash) [''A'', ''B'']
           = \<lparr>hash = len_hash, replicas = 1, keys = [2, 2], hashMap = [2 \<mapsto> ''B'']\<rparr>"
    by (simp add: ring_of_def Map_Add_def Add_virtual_def consistenthash_New_def len_hash_def
        Itoa_def)
  have d: "Map_Remove \<lparr>hash = len_hash, replicas = 1, keys = [2, 2], hashMap = [2 \<mapsto> ''B'']\<rparr> ''A''
           = \<lparr>hash = len_hash, replicas = 1, keys = [2], hashMap = Map.empty\<rparr>"
    by (simp add: Map_Remove_def Remove_virtual_def len_hash_def Itoa_def SearchInts_def
        Search_def Search_loop.simps)
  have g: "Map_Get \<lparr>hash = len_hash, replicas = 1, keys = [2, 2], hashMap = [2 \<mapsto> ''B'']\<rparr> ''Tom''
           = ''B''"
    by (simp add: Map_Get_def len_hash_def Search_def Search_loop.simps)
  show ?thesis
    unfolding r d by (simp add: g) (simp add: Map_Get_def)
qed

section \<open>Properties of the registry\<close>

subsection \<open>The list of live servers\<close>

lemma aliveServers_step_timeout: "timeout (snd (aliveServers_step now st e)) = timeout (snd st)"
  by (simp add: aliveServers_step_def Let_def)

lemma foldl_aliveServers_step:
  "fst (foldl (aliveServers_step now) (acc, p) al)
     = acc @ map fst (filter (\<lambda>e. timeout p = 0 \<or> now < snd e + timeout p) al) \<and>
   timeout (snd (foldl (aliveServers_step now) (acc, p) al)) = timeout p"
proof (induction al arbitrary: acc p)
  case Nil
  show ?case by simp
next
  case (Cons e al)
  obtain acc' p' where s: "aliveServers_step now (acc, p) e = (acc', p')"
    by (cases "aliveServers_step now (acc, p) e")
  then have t: "timeout p' = timeout p"
    using aliveServers_step_timeout [of now "(acc, p)" e] by simp
  have a: "acc' = (if timeout p = 0 \<or> now < snd e + timeout p then acc @ [fst e] else acc)"
    using s by (auto simp: aliveServers_step_def Let_def split: if_splits)
  show ?case
    using Cons.IH [of acc' p'] by (simp add: s t a)
qed

lemma aliveServers_list:
  "fst (aliveServers p now)
     = sort (map fst (filter (\<lambda>e. timeout p = 0 \<or> now < snd e + timeout p) (timeMap p)))"
  using foldl_aliveServers_step [of now "[]" p "timeMap p"]
  by (simp add: aliveServers_def Let_def)

lemma defaultTimeout_pos: "0 < defaultTimeout"
  by (simp add: defaultTimeout_def Minute_def Second_def)

text \<open>
  What \<open>aliveServers\<close> returns: sorted and without repetition, the peers last seen
  less than the time-to-live ago.
\<close>

lemma aliveServers_strict:
  assumes "registry_ok p"
  shows "sorted (fst (aliveServers p now)) \<and> distinct (fst (aliveServers p now)) \<and>
         set (fst (aliveServers p now))
           = {addr. \<exists>s. map_of (timeMap p) addr = Some s \<and> now < s + timeout p}"
proof -
  from assms have d: "distinct (map fst (timeMap p))" and t: "timeout p \<noteq> 0"
    using defaultTimeout_pos by (simp_all add: registry_ok_def)
  let ?al = "filter (\<lambda>e. timeout p = 0 \<or> now < snd e + timeout p) (timeMap p)"
  have "distinct (map fst ?al)"
    using d by (rule distinct_map_filter)
  moreover have "set (map fst ?al)
      = {addr. \<exists>s. map_of (timeMap p) addr = Some s \<and> now < s + timeout p}"
    using d t by force
  ultimately show ?thesis
    by (simp add: aliveServers_list)
qed

text \<open>
  Against the specification's notion: no expired peer is listed, and the peers
  within the time-to-live that are not listed are those last seen exactly the
  time-to-live ago.
\<close>

lemma aliveServers_within_ttl:
  assumes "registry_ok p"
  shows "set (fst (aliveServers p now)) \<subseteq> within_ttl p now \<and>
         within_ttl p now - set (fst (aliveServers p now))
           = {addr. map_of (timeMap p) addr = Some (now - timeout p)}"
proof -
  have s: "set (fst (aliveServers p now))
      = {addr. \<exists>s. map_of (timeMap p) addr = Some s \<and> now < s + timeout p}"
    using aliveServers_strict [OF assms, of now] by blast
  show ?thesis
    unfolding s within_ttl_def expired_def by auto
qed

subsection \<open>The handler\<close>

text \<open>
  A \<open>POST\<close> or \<open>DELETE\<close> whose \<open>X-Geerpc-Server\<close> header is empty gets status 500, and
  every method other than \<open>GET\<close>, \<open>POST\<close> and \<open>DELETE\<close> gets status 405.
\<close>

lemma ServeHTTP_status:
  "((Method req = ''POST'' \<or> Method req = ''DELETE'') \<and> X_Geerpc_Server req = [] \<longrightarrow>
      status (snd (ServeHTTP p now req)) = 500) \<and>
   (Method req \<noteq> ''GET'' \<and> Method req \<noteq> ''POST'' \<and> Method req \<noteq> ''DELETE'' \<longrightarrow>
      status (snd (ServeHTTP p now req)) = 405)"
  by (auto simp: ServeHTTP_def Let_def StatusInternalServerError_def StatusMethodNotAllowed_def)

text \<open>
  The response to a \<open>GET\<close> carries the comma-joined list of \<open>aliveServers\<close>.
\<close>

lemma ServeHTTP_GET:
  assumes "registry_ok p" and "Method req = ''GET''"
  shows "\<exists>servers. X_Geerpc_Servers (snd (ServeHTTP p now req)) = Some (Join servers '','') \<and>
           sorted servers \<and> distinct servers \<and>
           set servers = {addr. \<exists>s. map_of (timeMap p) addr = Some s \<and> now < s + timeout p}"
proof -
  from assms(2) have "X_Geerpc_Servers (snd (ServeHTTP p now req))
             = Some (Join (fst (aliveServers p now)) '','')"
    by (simp add: ServeHTTP_def Let_def)
  with aliveServers_strict [OF assms(1), of now] show ?thesis
    by blast
qed

text \<open>
  \<open>registry_ok\<close> holds of the new registry and after every request.
\<close>

lemma NewRPCRegistery_ok: "registry_ok NewRPCRegistery"
  by (simp add: registry_ok_def NewRPCRegistery_def)

lemma aliveServers_step_ok:
  "distinct (map fst (timeMap (snd st))) \<Longrightarrow>
   distinct (map fst (timeMap (snd (aliveServers_step now st e))))"
  by (simp add: aliveServers_step_def Let_def distinct_delete)

lemma foldl_aliveServers_ok:
  "distinct (map fst (timeMap (snd st))) \<Longrightarrow>
   distinct (map fst (timeMap (snd (foldl (aliveServers_step now) st al))))"
  by (induction al arbitrary: st) (simp_all add: aliveServers_step_ok)

lemma ServeHTTP_ok:
  assumes "registry_ok p"
  shows "registry_ok (fst (ServeHTTP p now req))"
proof -
  from assms have d: "distinct (map fst (timeMap p))" and t: "timeout p = defaultTimeout"
    by (simp_all add: registry_ok_def)
  have "registry_ok (snd (aliveServers p now))"
    using foldl_aliveServers_ok [of "([], p)" now "timeMap p"] d t
      foldl_aliveServers_step [of now "[]" p "timeMap p"]
    by (simp add: aliveServers_def Let_def registry_ok_def)
  moreover have "registry_ok (putServer p now a)" for a
    using d t
    by (simp add: putServer_def set_peer_def registry_ok_def distinct_update split: option.splits)
  moreover have "registry_ok (p\<lparr>timeMap := AList.delete a (timeMap p),
                    peers := Map_Remove (peers p) a\<rparr>)" for a
    using d t by (simp add: registry_ok_def distinct_delete)
  ultimately show ?thesis
    using assms by (simp add: ServeHTTP_def Let_def)
qed

lemma registry_boundary_ok: "registry_ok registry_boundary"
  unfolding registry_boundary_def using NewRPCRegistery_ok by (rule ServeHTTP_ok)

subsection \<open>A peer last seen exactly the time-to-live ago\<close>

lemma registry_boundary_fields:
  "timeMap registry_boundary = [(''tcp@a'', 0)] \<and> timeout registry_boundary = defaultTimeout"
  by (simp add: registry_boundary_def ServeHTTP_def Let_def putServer_def set_peer_def
      NewRPCRegistery_def)

text \<open>
  C9, the \<open>GET\<close> part, does not hold of the code. A new registry handles a \<open>POST\<close> of
  the peer \<open>tcp@a\<close> at the instant 0 and a \<open>GET\<close> at the instant 0 + TTL. The peer's
  last-seen instant does not precede \<open>now - TTL\<close>: it is within the time-to-live. But
  \<open>aliveServers\<close> keeps a peer only if \<open>s.Add(p.timeout).After(time.Now())\<close>, so the
  response carries an empty \<open>X-Geerpc-Servers\<close> and the peer is deleted from the
  table. \<open>Cleanup\<close>, whose test is \<open>s.Add(p.timeout).Before(time.Now())\<close> as in
  \<open>PickPeer\<close>, keeps the peer at that instant; one nanosecond earlier the \<open>GET\<close> lists
  it.
\<close>

theorem ServeHTTP_GET_boundary:
  "timeMap registry_boundary = [(''tcp@a'', 0)] \<and>
   timeout registry_boundary = defaultTimeout \<and>
   ''tcp@a'' \<in> within_ttl registry_boundary defaultTimeout \<and>
   X_Geerpc_Servers (snd (ServeHTTP registry_boundary defaultTimeout
       \<lparr>Method = ''GET'', X_Geerpc_Server = []\<rparr>)) = Some [] \<and>
   timeMap (fst (ServeHTTP registry_boundary defaultTimeout
       \<lparr>Method = ''GET'', X_Geerpc_Server = []\<rparr>)) = [] \<and>
   timeMap (Cleanup_tick registry_boundary defaultTimeout) = [(''tcp@a'', 0)] \<and>
   X_Geerpc_Servers (snd (ServeHTTP registry_boundary (defaultTimeout - 1)
       \<lparr>Method = ''GET'', X_Geerpc_Server = []\<rparr>)) = Some ''tcp@a''"
proof -
  note f = registry_boundary_fields
  have w: "''tcp@a'' \<in> within_ttl registry_boundary defaultTimeout"
    by (simp add: within_ttl_def expired_def f)
  have nz: "defaultTimeout \<noteq> 0"
    using defaultTimeout_pos by simp
  have a: "fst (aliveServers registry_boundary defaultTimeout) = []"
    by (simp add: aliveServers_list f nz)
  have g: "X_Geerpc_Servers (snd (ServeHTTP registry_boundary defaultTimeout
       \<lparr>Method = ''GET'', X_Geerpc_Server = []\<rparr>)) = Some []"
    by (simp add: ServeHTTP_def Let_def a)
  have d: "timeMap (fst (ServeHTTP registry_boundary defaultTimeout
       \<lparr>Method = ''GET'', X_Geerpc_Server = []\<rparr>)) = []"
    by (simp add: ServeHTTP_def Let_def aliveServers_def aliveServers_step_def f nz)
  have c: "timeMap (Cleanup_tick registry_boundary defaultTimeout) = [(''tcp@a'', 0)]"
    by (simp add: Cleanup_tick_def Cleanup_step_def Let_def f)
  have b: "fst (aliveServers registry_boundary (defaultTimeout - 1)) = [''tcp@a'']"
    by (simp add: aliveServers_list f nz)
  have e: "X_Geerpc_Servers (snd (ServeHTTP registry_boundary (defaultTimeout - 1)
       \<lparr>Method = ''GET'', X_Geerpc_Server = []\<rparr>)) = Some ''tcp@a''"
    by (simp add: ServeHTTP_def Let_def b)
  from f w g d c e show ?thesis by (intro conjI) simp_all
qed

section \<open>Properties of the RPC server's request loop\<close>

lemma readRequest_unknown:
  assumes "ServiceMethod hdr \<noteq> ''Group.Get''" "ServiceMethod hdr \<noteq> ''Group.Insert''"
    "ServiceMethod hdr \<noteq> ''Group.Delete''"
  shows "readRequest (GotHeader hdr # cc)
         = ((None, Some (''rpc server: unknown method '' @ ServiceMethod hdr)), cc)"
  using assms by (simp add: readRequest_def readRequestHeader_def Let_def)

text \<open>
  A request with an unknown method ends the loop: nothing is sent, nothing is handed
  to a handler, and the rest of the connection is never read.
\<close>

lemma ServeCodec_unknown:
  assumes "ServiceMethod hdr \<noteq> ''Group.Get''" "ServiceMethod hdr \<noteq> ''Group.Insert''"
    "ServiceMethod hdr \<noteq> ''Group.Delete''"
  shows "ServeCodec (GotHeader hdr # cc) = \<lparr>sent = [], handled = [], unread = cc\<rparr>"
  unfolding ServeCodec_def
  by (subst ServeCodec_loop.simps) (simp add: readRequest_unknown [OF assms])

text \<open>
  The sibling path: when the body of a known method cannot be read, the loop does send
  a response with the error in its header and the placeholder body, and goes on.
\<close>

lemma ServeCodec_body_error:
  assumes "ServiceMethod hdr = ''Group.Get'' \<or> ServiceMethod hdr = ''Group.Insert'' \<or>
           ServiceMethod hdr = ''Group.Delete''"
  shows "ServeCodec (GotHeader hdr # Failed e # cc)
         = ServeCodec_loop cc [(hdr\<lparr>Error := e\<rparr>, invalidRequest)] []"
  unfolding ServeCodec_def
  using assms
  by (subst ServeCodec_loop.simps) (auto simp: readRequest_def readRequestHeader_def Let_def)

text \<open>
  C4. The claim does not hold of the code. On a connection that carries a request
  for the method \<open>Group.Foo\<close> and then a request for \<open>Group.Get\<close>, the loop sends no
  response, hands no request to a handler and stops with everything after the first
  header unread: \<open>readRequest\<close> returns a nil request with the error
  \<open>rpc server: unknown method Group.Foo\<close>, and \<open>ServeCodec\<close> leaves its loop on a nil
  request. On the same connection with a known method and an unreadable body, the
  error response is sent and the next request is served.
\<close>

theorem ServeCodec_unknown_method:
  "readRequest
     [GotHeader \<lparr>ServiceMethod = ''Group.Foo'', Seq = 1, Error = []\<rparr>, GotBody ''x'',
      GotHeader \<lparr>ServiceMethod = ''Group.Get'', Seq = 2, Error = []\<rparr>, GotBody ''Tom'']
   = ((None, Some ''rpc server: unknown method Group.Foo''),
      [GotBody ''x'',
       GotHeader \<lparr>ServiceMethod = ''Group.Get'', Seq = 2, Error = []\<rparr>, GotBody ''Tom'']) \<and>
   ServeCodec
     [GotHeader \<lparr>ServiceMethod = ''Group.Foo'', Seq = 1, Error = []\<rparr>, GotBody ''x'',
      GotHeader \<lparr>ServiceMethod = ''Group.Get'', Seq = 2, Error = []\<rparr>, GotBody ''Tom'']
   = \<lparr>sent = [], handled = [],
      unread = [GotBody ''x'',
                GotHeader \<lparr>ServiceMethod = ''Group.Get'', Seq = 2, Error = []\<rparr>,
                GotBody ''Tom'']\<rparr> \<and>
   ServeCodec
     [GotHeader \<lparr>ServiceMethod = ''Group.Get'', Seq = 1, Error = []\<rparr>, Failed ''bad body'',
      GotHeader \<lparr>ServiceMethod = ''Group.Get'', Seq = 2, Error = []\<rparr>, GotBody ''Tom'']
   = \<lparr>sent = [(\<lparr>ServiceMethod = ''Group.Get'', Seq = 1, Error = ''bad body''\<rparr>, invalidRequest)],
      handled = [\<lparr>h = \<lparr>ServiceMethod = ''Group.Get'', Seq = 2, Error = []\<rparr>,
                  argv = ''Tom'', req_method = ''Group.Get''\<rparr>],
      unread = []\<rparr>"
proof -
  have 1: "ServeCodec_loop
             [GotHeader \<lparr>ServiceMethod = ''Group.Get'', Seq = 2, Error = []\<rparr>, GotBody ''Tom'']
             out []
           = \<lparr>sent = out,
              handled = [\<lparr>h = \<lparr>ServiceMethod = ''Group.Get'', Seq = 2, Error = []\<rparr>,
                          argv = ''Tom'', req_method = ''Group.Get''\<rparr>],
              unread = []\<rparr>" for out
    apply (subst ServeCodec_loop.simps)
    apply (simp add: readRequest_def readRequestHeader_def Let_def)
    apply (subst ServeCodec_loop.simps)
    apply (simp add: readRequest_def readRequestHeader_def Let_def)
    done
  show ?thesis
    by (simp add: readRequest_unknown ServeCodec_unknown ServeCodec_body_error 1)
qed

section \<open>Properties of the duplicate-call suppression\<close>

subsection \<open>The calls whose function has run\<close>

lemma filter_update_length:
  "i < length xs \<Longrightarrow>
   length (filter P (xs[i := x])) + (if P (xs ! i) then 1 else 0)
     = length (filter P xs) + (if P x then 1 else 0)"
proof (induction xs arbitrary: i)
  case Nil
  then show ?case by simp
next
  case (Cons a xs)
  show ?case
  proof (cases i)
    case 0
    then show ?thesis by simp
  next
    case (Suc j)
    with Cons.prems have "j < length xs" by simp
    from Cons.IH [OF this] Suc show ?thesis by simp
  qed
qed

lemma ran_append [simp]: "ran (cs @ [\<lparr>wg = w, val_err = None\<rparr>]) = ran cs"
  by (simp add: ran_def)

lemma ran_set_result:
  "c < length cs \<Longrightarrow> val_err (cs ! c) = None \<Longrightarrow>
   ran (cs[c := (cs ! c)\<lparr>val_err := Some x\<rparr>]) = Suc (ran cs)"
  using filter_update_length [of c cs "\<lambda>c. val_err c \<noteq> None" "(cs ! c)\<lparr>val_err := Some x\<rparr>"]
  by (simp add: ran_def)

lemma ran_set_wg:
  "c < length cs \<Longrightarrow> ran (cs[c := (cs ! c)\<lparr>wg := w\<rparr>]) = ran cs"
  using filter_update_length [of c cs "\<lambda>c. val_err c \<noteq> None" "(cs ! c)\<lparr>wg := w\<rparr>"]
  by (simp add: ran_def)

subsection \<open>Places and calls\<close>

lemma leads_owns: "leads p c \<Longrightarrow> owns p c"
  by (cases p) auto

lemma owns_lt: "phase_ok cs p \<Longrightarrow> owns p c \<Longrightarrow> c < length cs"
  by (cases p) auto

lemma phase_ok_append: "phase_ok cs p \<Longrightarrow> phase_ok (cs @ [x]) p"
  by (cases p) (auto simp: nth_append)

lemma phase_ok_update:
  "phase_ok cs p \<Longrightarrow> \<not> owns p c \<Longrightarrow> (\<forall>r. p \<noteq> Returned c r) \<Longrightarrow> phase_ok (cs[c := x]) p"
  by (cases p) (auto simp: nth_list_update)

lemma phase_ok_Returned_wg: "phase_ok cs (Returned c r) \<Longrightarrow> wg (cs ! c) = 0"
  by simp


subsection \<open>Every step keeps the invariant\<close>

lemma sf_invD:
  assumes "sf_inv k g"
  shows "\<And>i c. i < length (pcs g) \<Longrightarrow> leads (pcs g ! i) c \<Longrightarrow> m g k = Some c"
    and "\<And>i j c. i < length (pcs g) \<Longrightarrow> j < length (pcs g) \<Longrightarrow>
           owns (pcs g ! i) c \<Longrightarrow> owns (pcs g ! j) c \<Longrightarrow> i = j"
    and "\<And>c. m g k = Some c \<Longrightarrow> \<exists>i<length (pcs g). leads (pcs g ! i) c"
    and "\<And>i. i < length (pcs g) \<Longrightarrow> phase_ok (calls g) (pcs g ! i)"
    and "\<And>c. c < length (calls g) \<Longrightarrow> \<exists>i<length (pcs g). owns (pcs g ! i) c"
    and "runs g = ran (calls g)"
  using assms unfolding sf_inv_def by blast+

lemma sf_invI:
  assumes "\<And>i c. i < length (pcs g) \<Longrightarrow> leads (pcs g ! i) c \<Longrightarrow> m g k = Some c"
    and "\<And>i j c. i < length (pcs g) \<Longrightarrow> j < length (pcs g) \<Longrightarrow>
           owns (pcs g ! i) c \<Longrightarrow> owns (pcs g ! j) c \<Longrightarrow> i = j"
    and "\<And>c. m g k = Some c \<Longrightarrow> \<exists>i<length (pcs g). leads (pcs g ! i) c"
    and "\<And>i. i < length (pcs g) \<Longrightarrow> phase_ok (calls g) (pcs g ! i)"
    and "\<And>c. c < length (calls g) \<Longrightarrow> \<exists>i<length (pcs g). owns (pcs g ! i) c"
    and "runs g = ran (calls g)"
  shows "sf_inv k g"
  using assms unfolding sf_inv_def by blast

lemma inv_enter_leader:
  assumes inv: "sf_inv k g" and i: "i < length (pcs g)" and p: "pcs g ! i = Start"
    and cold: "m g k = None"
  shows "sf_inv k (g\<lparr>calls := calls g @ [\<lparr>wg = 1, val_err = None\<rparr>],
                    m := (m g)(k \<mapsto> length (calls g)),
                    pcs := (pcs g)[i := Leading (length (calls g))]\<rparr>)"
    (is "sf_inv k ?g")
proof (rule sf_invI)
  note D = sf_invD [OF inv]
  fix j c
  assume j: "j < length (pcs ?g)" and l: "leads (pcs ?g ! j) c"
  show "m ?g k = Some c"
  proof (cases "j = i")
    case True
    with l i show ?thesis by simp
  next
    case False
    with j l D(1) [of j c] cold show ?thesis by simp
  qed
next
  note D = sf_invD [OF inv]
  fix j l c
  assume j: "j < length (pcs ?g)" and l: "l < length (pcs ?g)"
    and o: "owns (pcs ?g ! j) c" "owns (pcs ?g ! l) c"
  have old: "c < length (calls g)" if "n < length (pcs g)" "n \<noteq> i" "owns (pcs ?g ! n) c" for n
    using that owns_lt [OF D(4) [of n], of c] by simp
  show "j = l"
  proof (cases "j = i"; cases "l = i")
    assume "j = i" "l \<noteq> i"
    with o i l old [of l] show ?thesis by simp
  next
    assume "j \<noteq> i" "l = i"
    with o i j old [of j] show ?thesis by simp
  next
    assume "j \<noteq> i" "l \<noteq> i"
    with o j l D(2) [of j l c] show ?thesis by simp
  qed simp
next
  fix c
  assume "m ?g k = Some c"
  then have "c = length (calls g)" by simp
  with i show "\<exists>j<length (pcs ?g). leads (pcs ?g ! j) c"
    by (intro exI [of _ i]) simp
next
  note D = sf_invD [OF inv]
  fix j
  assume j: "j < length (pcs ?g)"
  show "phase_ok (calls ?g) (pcs ?g ! j)"
  proof (cases "j = i")
    case True
    with i show ?thesis by simp
  next
    case False
    with j D(4) [of j] show ?thesis by (simp add: phase_ok_append)
  qed
next
  note D = sf_invD [OF inv]
  fix c
  assume c: "c < length (calls ?g)"
  show "\<exists>j<length (pcs ?g). owns (pcs ?g ! j) c"
  proof (cases "c = length (calls g)")
    case True
    with i show ?thesis by (intro exI [of _ i]) simp
  next
    case False
    with c have "c < length (calls g)" by simp
    from D(5) [OF this] obtain j where j: "j < length (pcs g)" "owns (pcs g ! j) c"
      by blast
    with p have "j \<noteq> i" by auto
    with j show ?thesis by (intro exI [of _ j]) simp
  qed
next
  show "runs ?g = ran (calls ?g)"
    using sf_invD(6) [OF inv] by simp
qed


lemma owner_published:
  "phase_ok cs p \<Longrightarrow> owns p c \<Longrightarrow> wg (cs ! c) = 0 \<Longrightarrow> val_err (cs ! c) \<noteq> None"
  by (cases p) auto

lemma inv_pcs_only:
  assumes inv: "sf_inv k g" and i: "i < length (pcs g)"
    and l: "\<And>c. leads p' c = leads (pcs g ! i) c"
    and ow: "\<And>c. owns p' c = owns (pcs g ! i) c"
    and ok: "phase_ok (calls g) p'"
  shows "sf_inv k (g\<lparr>pcs := (pcs g)[i := p']\<rparr>)" (is "sf_inv k ?g")
proof -
  note D = sf_invD [OF inv]
  have ls: "leads (pcs ?g ! j) c = leads (pcs g ! j) c" if "j < length (pcs g)" for j c
    using that l by (cases "j = i") simp_all
  have os: "owns (pcs ?g ! j) c = owns (pcs g ! j) c" if "j < length (pcs g)" for j c
    using that ow by (cases "j = i") simp_all
  show ?thesis
  proof (rule sf_invI)
    fix j c
    assume "j < length (pcs ?g)" "leads (pcs ?g ! j) c"
    then show "m ?g k = Some c"
      using ls [of j c] D(1) [of j c] by simp
  next
    fix j n c
    assume "j < length (pcs ?g)" "n < length (pcs ?g)" "owns (pcs ?g ! j) c" "owns (pcs ?g ! n) c"
    then show "j = n"
      using os [of j c] os [of n c] D(2) [of j n c] by simp
  next
    fix c
    assume "m ?g k = Some c"
    then obtain j where "j < length (pcs g)" "leads (pcs g ! j) c"
      using D(3) [of c] by auto
    then show "\<exists>j<length (pcs ?g). leads (pcs ?g ! j) c"
      using ls [of j c] by (intro exI [of _ j]) simp
  next
    fix j
    assume "j < length (pcs ?g)"
    then show "phase_ok (calls ?g) (pcs ?g ! j)"
      using D(4) [of j] ok by (cases "j = i") simp_all
  next
    fix c
    assume "c < length (calls ?g)"
    then obtain j where "j < length (pcs g)" "owns (pcs g ! j) c"
      using D(5) [of c] by auto
    then show "\<exists>j<length (pcs ?g). owns (pcs ?g ! j) c"
      using os [of j c] by (intro exI [of _ j]) simp
  next
    show "runs ?g = ran (calls ?g)"
      using D(6) by simp
  qed
qed

lemma inv_enter_waiter:
  assumes inv: "sf_inv k g" and i: "i < length (pcs g)" and p: "pcs g ! i = Start"
    and hot: "m g k = Some c"
  shows "sf_inv k (g\<lparr>pcs := (pcs g)[i := Waiting c]\<rparr>)"
proof -
  note D = sf_invD [OF inv]
  from D(3) [OF hot] obtain j where j: "j < length (pcs g)" "leads (pcs g ! j) c"
    by blast
  then have "c < length (calls g)"
    using owns_lt [OF D(4) [of j], of c] leads_owns by blast
  then show ?thesis
    using p by (intro inv_pcs_only [OF inv i]) simp_all
qed

lemma inv_wake:
  assumes inv: "sf_inv k g" and i: "i < length (pcs g)" and p: "pcs g ! i = Waiting c"
    and z: "wg (calls g ! c) = 0"
  shows "sf_inv k (g\<lparr>pcs := (pcs g)[i := Returned c (val_err (calls g ! c))]\<rparr>)"
proof -
  note D = sf_invD [OF inv]
  from D(4) [OF i] p have c: "c < length (calls g)" by simp
  from D(5) [OF c] obtain j where j: "j < length (pcs g)" "owns (pcs g ! j) c"
    by blast
  have "val_err (calls g ! c) \<noteq> None"
    using owner_published [OF D(4) [of j]] j z by blast
  with c z p show ?thesis
    by (intro inv_pcs_only [OF inv i]) simp_all
qed

lemma inv_return_leader:
  assumes inv: "sf_inv k g" and i: "i < length (pcs g)" and p: "pcs g ! i = Deleted c"
  shows "sf_inv k (g\<lparr>pcs := (pcs g)[i := LeaderReturned c (val_err (calls g ! c))]\<rparr>)"
proof -
  from sf_invD(4) [OF inv i] p show ?thesis
    by (intro inv_pcs_only [OF inv i]) simp_all
qed

lemma inv_delete:
  assumes inv: "sf_inv k g" and i: "i < length (pcs g)" and p: "pcs g ! i = Signalled c"
  shows "sf_inv k (g\<lparr>m := (m g)(k := None), pcs := (pcs g)[i := Deleted c]\<rparr>)"
    (is "sf_inv k ?g")
proof (rule sf_invI)
  note D = sf_invD [OF inv]
  fix j d
  assume j: "j < length (pcs ?g)" and l: "leads (pcs ?g ! j) d"
  then have ji: "j \<noteq> i" using i by auto
  with j l have l': "leads (pcs g ! j) d" by simp
  from D(1) [OF i, of c] p have "m g k = Some c" by simp
  moreover from D(1) [of j d] j l' have "m g k = Some d" by simp
  ultimately have "d = c" by simp
  with D(2) [of i j c] i j p l' leads_owns [of "pcs g ! j" c] have "i = j" by simp
  with ji show "m ?g k = Some d" by simp
next
  note D = sf_invD [OF inv]
  fix j n d
  assume a: "j < length (pcs ?g)" "n < length (pcs ?g)" "owns (pcs ?g ! j) d" "owns (pcs ?g ! n) d"
  have "owns (pcs ?g ! x) d = owns (pcs g ! x) d" if "x < length (pcs g)" for x
    using that p by (cases "x = i") simp_all
  with a show "j = n"
    using D(2) [of j n d] by simp
next
  fix d
  assume "m ?g k = Some d"
  then show "\<exists>j<length (pcs ?g). leads (pcs ?g ! j) d" by simp
next
  note D = sf_invD [OF inv]
  fix j
  assume "j < length (pcs ?g)"
  then show "phase_ok (calls ?g) (pcs ?g ! j)"
    using D(4) [of j] D(4) [OF i] p by (cases "j = i") simp_all
next
  note D = sf_invD [OF inv]
  fix d
  assume "d < length (calls ?g)"
  then obtain j where j: "j < length (pcs g)" "owns (pcs g ! j) d"
    using D(5) [of d] by auto
  have "owns (pcs ?g ! j) d"
    using j p by (cases "j = i") auto
  with j show "\<exists>j<length (pcs ?g). owns (pcs ?g ! j) d"
    by (intro exI [of _ j]) simp
next
  show "runs ?g = ran (calls ?g)"
    using sf_invD(6) [OF inv] by simp
qed


lemma inv_leader_update:
  assumes inv: "sf_inv k g" and i: "i < length (pcs g)"
    and l: "leads (pcs g ! i) c" and w: "wg (calls g ! c) \<noteq> 0"
    and l': "\<And>d. leads p' d = (d = c)" and o': "\<And>d. owns p' d = (d = c)"
    and ok: "phase_ok ((calls g)[c := x]) p'"
    and r: "n = ran ((calls g)[c := x])"
  shows "sf_inv k (g\<lparr>calls := (calls g)[c := x], runs := n, pcs := (pcs g)[i := p']\<rparr>)"
    (is "sf_inv k ?g")
proof -
  note D = sf_invD [OF inv]
  from l have o: "owns (pcs g ! i) c" by (rule leads_owns)
  have li: "leads (pcs g ! i) d = (d = c)" for d
    using l by (cases "pcs g ! i") auto
  have oi: "owns (pcs g ! i) d = (d = c)" for d
    using l by (cases "pcs g ! i") auto
  have ls: "leads (pcs ?g ! j) d = leads (pcs g ! j) d" if "j < length (pcs g)" for j d
    using that l' li by (cases "j = i") simp_all
  have os: "owns (pcs ?g ! j) d = owns (pcs g ! j) d" if "j < length (pcs g)" for j d
    using that o' oi by (cases "j = i") simp_all
  show ?thesis
  proof (rule sf_invI)
    fix j d
    assume "j < length (pcs ?g)" "leads (pcs ?g ! j) d"
    then show "m ?g k = Some d"
      using ls [of j d] D(1) [of j d] by simp
  next
    fix j n d
    assume "j < length (pcs ?g)" "n < length (pcs ?g)" "owns (pcs ?g ! j) d" "owns (pcs ?g ! n) d"
    then show "j = n"
      using os [of j d] os [of n d] D(2) [of j n d] by simp
  next
    fix d
    assume "m ?g k = Some d"
    then obtain j where "j < length (pcs g)" "leads (pcs g ! j) d"
      using D(3) [of d] by auto
    then show "\<exists>j<length (pcs ?g). leads (pcs ?g ! j) d"
      using ls [of j d] by (intro exI [of _ j]) simp
  next
    fix j
    assume j: "j < length (pcs ?g)"
    show "phase_ok (calls ?g) (pcs ?g ! j)"
    proof (cases "j = i")
      case True
      with i ok show ?thesis by simp
    next
      case False
      with j D(2) [of j i c] i o have "\<not> owns (pcs g ! j) c" by auto
      moreover have "pcs g ! j \<noteq> Returned c v" for v
        using D(4) [of j] j w by auto
      ultimately have "phase_ok ((calls g)[c := x]) (pcs g ! j)"
        using D(4) [of j] j by (intro phase_ok_update) simp_all
      with False show ?thesis by simp
    qed
  next
    fix d
    assume "d < length (calls ?g)"
    then obtain j where "j < length (pcs g)" "owns (pcs g ! j) d"
      using D(5) [of d] by auto
    then show "\<exists>j<length (pcs ?g). owns (pcs ?g ! j) d"
      using os [of j d] by (intro exI [of _ j]) simp
  next
    show "runs ?g = ran (calls ?g)"
      using r by simp
  qed
qed

lemma inv_run:
  assumes inv: "sf_inv k g" and i: "i < length (pcs g)" and p: "pcs g ! i = Leading c"
  shows "sf_inv k (g\<lparr>calls := (calls g)[c := (calls g ! c)\<lparr>val_err := Some r\<rparr>],
                    runs := runs g + 1,
                    pcs := (pcs g)[i := Ran c]\<rparr>)"
proof -
  from sf_invD(4) [OF inv i] p
  have c: "c < length (calls g)" "wg (calls g ! c) = 1" "val_err (calls g ! c) = None"
    by simp_all
  show ?thesis
    using c p sf_invD(6) [OF inv]
    by (intro inv_leader_update [OF inv i]) (auto simp: ran_set_result)
qed

lemma inv_signal:
  assumes inv: "sf_inv k g" and i: "i < length (pcs g)" and p: "pcs g ! i = Ran c"
  shows "sf_inv k (g\<lparr>calls := (calls g)[c := (calls g ! c)\<lparr>wg := wg (calls g ! c) - 1\<rparr>],
                    pcs := (pcs g)[i := Signalled c]\<rparr>)"
proof -
  from sf_invD(4) [OF inv i] p
  have c: "c < length (calls g)" "wg (calls g ! c) = 1" "val_err (calls g ! c) \<noteq> None"
    by simp_all
  have "sf_inv k (g\<lparr>calls := (calls g)[c := (calls g ! c)\<lparr>wg := wg (calls g ! c) - 1\<rparr>],
                    runs := runs g,
                    pcs := (pcs g)[i := Signalled c]\<rparr>)"
    using c p sf_invD(6) [OF inv]
    by (intro inv_leader_update [OF inv i]) (auto simp: ran_set_wg)
  then show ?thesis by simp
qed

lemma Do_step_inv:
  assumes "sf_inv k g" "Do_step k fn g i = Some g'"
  shows "sf_inv k g'"
proof -
  from assms(2) have i: "i < length (pcs g)"
    by (auto simp: Do_step_def split: if_splits)
  show ?thesis
  proof (cases "pcs g ! i")
    case Start
    with assms i show ?thesis
      by (auto simp: Do_step_def Let_def inv_enter_leader inv_enter_waiter
          simp del: One_nat_def split: option.splits)
  next
    case (Waiting c)
    with assms i show ?thesis
      by (auto simp: Do_step_def inv_wake split: if_splits)
  next
    case (Leading c)
    with assms i inv_run [of k g i c] show ?thesis
      by (auto simp: Do_step_def split: option.splits)
  next
    case (Ran c)
    with assms i inv_signal [of k g i c] show ?thesis
      by (auto simp: Do_step_def)
  next
    case (Signalled c)
    with assms i show ?thesis
      by (auto simp: Do_step_def inv_delete)
  next
    case (Deleted c)
    with assms i show ?thesis
      by (auto simp: Do_step_def inv_return_leader)
  next
    case (Returned c r)
    with assms i show ?thesis
      by (simp add: Do_step_def)
  next
    case (LeaderReturned c r)
    with assms i show ?thesis
      by (simp add: Do_step_def)
  qed
qed

lemma cold_inv: "sf_inv k (cold n)"
  by (simp add: sf_inv_def cold_def ran_def)

lemma exec_inv: "sf_inv k g \<Longrightarrow> exec k fn g sched = Some g' \<Longrightarrow> sf_inv k g'"
proof (induction sched arbitrary: g)
  case Nil
  then show ?case by simp
next
  case (Cons i sched)
  from Cons.prems(2) obtain g1 where g1: "Do_step k fn g i = Some g1" "exec k fn g1 sched = Some g'"
    by (auto split: option.splits)
  from Do_step_inv [OF Cons.prems(1) g1(1)] g1(2) show ?case
    by (rule Cons.IH)
qed

lemma exec_length: "exec k fn g sched = Some g' \<Longrightarrow> length (pcs g') = length (pcs g)"
proof (induction sched arbitrary: g)
  case Nil
  then show ?case by simp
next
  case (Cons i sched)
  from Cons.prems obtain g1 where g1: "Do_step k fn g i = Some g1" "exec k fn g1 sched = Some g'"
    by (auto split: option.splits)
  from g1(1) have "length (pcs g1) = length (pcs g)"
    by (auto simp: Do_step_def Let_def split: if_splits pc.splits option.splits)
  with Cons.IH [OF g1(2)] show ?case by simp
qed


subsection \<open>Where the stored results come from\<close>

lemma results_from_pcs: "results_from fn (g\<lparr>pcs := p\<rparr>) = results_from fn g"
  by (simp add: results_from_def)

lemma Do_step_results:
  assumes "results_from fn g" "Do_step k fn g i = Some g'"
  shows "results_from fn g'"
proof -
  from assms(2) have i: "i < length (pcs g)"
    by (auto simp: Do_step_def split: if_splits)
  show ?thesis
  proof (cases "pcs g ! i")
    case Start
    have g': "runs g' = runs g \<and>
      (calls g' = calls g \<or> calls g' = calls g @ [\<lparr>wg = 1, val_err = None\<rparr>])"
    proof (cases "m g k")
      case None
      with assms(2) i Start show ?thesis
        by (auto simp: Do_step_def Let_def)
    next
      case (Some c)
      with assms(2) i Start show ?thesis
        by (auto simp: Do_step_def Let_def)
    qed
    show ?thesis
      unfolding results_from_def
    proof (intro allI impI)
      fix d
      assume d: "d < length (calls g')" and v: "val_err (calls g' ! d) \<noteq> None"
      have dl: "d < length (calls g)"
      proof (rule ccontr)
        assume n: "\<not> d < length (calls g)"
        with d g' have c: "calls g' = calls g @ [\<lparr>wg = 1, val_err = None\<rparr>]"
          by auto
        with d n have "d = length (calls g)" by simp
        with c v show False by simp
      qed
      with g' have eq: "calls g' ! d = calls g ! d"
        by (auto simp: nth_append)
      from assms(1) dl have "val_err (calls g ! d) \<noteq> None \<longrightarrow>
          (\<exists>x<runs g. val_err (calls g ! d) = fn x)"
        unfolding results_from_def by blast
      with v eq obtain x where "x < runs g" "val_err (calls g ! d) = fn x"
        by auto
      with g' eq show "\<exists>x<runs g'. val_err (calls g' ! d) = fn x"
        by auto
    qed
  next
    case (Leading c)
    with assms i obtain r where r: "fn (runs g) = Some r"
      and g': "g' = g\<lparr>calls := (calls g)[c := (calls g ! c)\<lparr>val_err := Some r\<rparr>],
                  runs := runs g + 1, pcs := (pcs g)[i := Ran c]\<rparr>"
      by (auto simp: Do_step_def split: option.splits)
    show ?thesis
      unfolding results_from_def
    proof (intro allI impI)
      fix d
      assume d: "d < length (calls g')" and v: "val_err (calls g' ! d) \<noteq> None"
      show "\<exists>x<runs g'. val_err (calls g' ! d) = fn x"
      proof (cases "d = c")
        case True
        with d r have "val_err (calls g' ! d) = fn (runs g)"
          by (simp add: g')
        then show ?thesis
          by (intro exI [of _ "runs g"]) (simp add: g')
      next
        case False
        from d have dl: "d < length (calls g)"
          by (simp add: g')
        from False have eq: "calls g' ! d = calls g ! d"
          by (simp add: g')
        from assms(1) dl have "val_err (calls g ! d) \<noteq> None \<longrightarrow>
            (\<exists>x<runs g. val_err (calls g ! d) = fn x)"
          unfolding results_from_def by blast
        with v eq obtain x where "x < runs g" "val_err (calls g ! d) = fn x"
          by auto
        with eq show ?thesis
          by (intro exI [of _ x]) (simp add: g')
      qed
    qed
  next
    case (Ran c)
    with assms i have g': "g' = g\<lparr>calls := (calls g)[c := (calls g ! c)\<lparr>wg := wg (calls g ! c) - 1\<rparr>],
                  pcs := (pcs g)[i := Signalled c]\<rparr>"
      by (simp add: Do_step_def)
    have "val_err (calls g' ! d) = val_err (calls g ! d)" if "d < length (calls g)" for d
      using that by (cases "d = c") (simp_all add: g')
    with assms(1) show ?thesis
      by (simp add: results_from_def g')
  next
    case (Waiting c)
    with assms(2) i obtain p where "g' = g\<lparr>pcs := p\<rparr>"
      by (auto simp: Do_step_def split: if_splits)
    with assms(1) show ?thesis by (simp add: results_from_pcs)
  next
    case (Signalled c)
    with assms(2) i have "g' = g\<lparr>m := (m g)(k := None), pcs := (pcs g)[i := Deleted c]\<rparr>"
      by (auto simp: Do_step_def)
    with assms(1) show ?thesis by (simp add: results_from_def)
  next
    case (Deleted c)
    with assms(2) i obtain p where "g' = g\<lparr>pcs := p\<rparr>"
      by (auto simp: Do_step_def)
    with assms(1) show ?thesis by (simp add: results_from_pcs)
  next
    case (Returned c r)
    with assms(2) i show ?thesis by (simp add: Do_step_def)
  next
    case (LeaderReturned c r)
    with assms(2) i show ?thesis by (simp add: Do_step_def)
  qed
qed

lemma exec_results: "results_from fn g \<Longrightarrow> exec k fn g sched = Some g' \<Longrightarrow> results_from fn g'"
proof (induction sched arbitrary: g)
  case Nil
  then show ?case by simp
next
  case (Cons i sched)
  from Cons.prems(2) obtain g1 where g1: "Do_step k fn g i = Some g1" "exec k fn g1 sched = Some g'"
    by (auto split: option.splits)
  from Do_step_results [OF Cons.prems(1) g1(1)] g1(2) show ?case
    by (rule Cons.IH)
qed

lemma cold_results: "results_from fn (cold n)"
  by (simp add: results_from_def cold_def)

lemma exec_append:
  "exec k fn g (s1 @ s2) = (case exec k fn g s1 of None \<Rightarrow> None | Some g1 \<Rightarrow> exec k fn g1 s2)"
  by (induction s1 arbitrary: g) (auto split: option.splits)


subsection \<open>No deadlock, and every interleaving can be completed\<close>

text \<open>
  Provided every call of \<open>fn\<close> returns: as long as a goroutine has not returned, some
  goroutine can move. A goroutine in \<open>Wait\<close> is held only while the owner of its call
  has not yet called \<open>Done\<close>, and that owner can move.
\<close>

lemma Do_step_enabled:
  assumes inv: "sf_inv k g" and tot: "\<forall>x. fn x \<noteq> None"
    and i: "i < length (pcs g)" and nr: "\<not> returned (pcs g ! i)"
  shows "\<exists>j<length (pcs g). Do_step k fn g j \<noteq> None"
proof (cases "\<exists>c. pcs g ! i = Waiting c \<and> wg (calls g ! c) \<noteq> 0")
  case False
  with i nr tot have "Do_step k fn g i \<noteq> None"
    by (cases "pcs g ! i") (auto simp: Do_step_def Let_def split: option.splits)
  with i show ?thesis by blast
next
  case True
  then obtain c where c: "pcs g ! i = Waiting c" "wg (calls g ! c) \<noteq> 0"
    by blast
  note D = sf_invD [OF inv]
  from D(4) [OF i] c have "c < length (calls g)" by simp
  from D(5) [OF this] obtain j where j: "j < length (pcs g)" "owns (pcs g ! j) c"
    by blast
  from D(4) [OF j(1)] j(2) c(2) have "pcs g ! j = Leading c \<or> pcs g ! j = Ran c"
    by (cases "pcs g ! j") auto
  with j(1) tot have "Do_step k fn g j \<noteq> None"
    by (auto simp: Do_step_def split: option.splits)
  with j(1) show ?thesis by blast
qed

lemma sum_list_map_update:
  fixes f :: "'a \<Rightarrow> nat"
  shows "i < length xs \<Longrightarrow>
         sum_list (map f (xs[i := x])) + f (xs ! i) = sum_list (map f xs) + f x"
proof (induction xs arbitrary: i)
  case Nil
  then show ?case by simp
next
  case (Cons a xs)
  show ?case
  proof (cases i)
    case 0
    then show ?thesis by simp
  next
    case (Suc j)
    with Cons.prems have "j < length xs" by simp
    from Cons.IH [OF this] Suc show ?thesis by simp
  qed
qed

lemma work_left_update:
  "i < length (pcs g) \<Longrightarrow> steps_left p < steps_left (pcs g ! i) \<Longrightarrow>
   sum_list (map steps_left ((pcs g)[i := p])) < work_left g"
  using sum_list_map_update [of i "pcs g" steps_left p]
  by (simp add: work_left_def)

lemma Do_step_work_left:
  assumes "Do_step k fn g i = Some g'"
  shows "work_left g' < work_left g"
proof -
  from assms have i: "i < length (pcs g)"
    by (auto simp: Do_step_def split: if_splits)
  show ?thesis
  proof (cases "pcs g ! i")
    case Start
    with assms i work_left_update [of i g "Waiting c" for c]
      work_left_update [of i g "Leading (length (calls g))"]
    show ?thesis
      by (auto simp: Do_step_def Let_def work_left_def split: option.splits)
  next
    case (Waiting c)
    with assms i work_left_update [of i g "Returned c (val_err (calls g ! c))"] show ?thesis
      by (auto simp: Do_step_def work_left_def split: if_splits)
  next
    case (Leading c)
    with assms i work_left_update [of i g "Ran c"] show ?thesis
      by (auto simp: Do_step_def work_left_def split: option.splits)
  next
    case (Ran c)
    with assms i work_left_update [of i g "Signalled c"] show ?thesis
      by (auto simp: Do_step_def work_left_def)
  next
    case (Signalled c)
    with assms i work_left_update [of i g "Deleted c"] show ?thesis
      by (auto simp: Do_step_def work_left_def)
  next
    case (Deleted c)
    with assms i work_left_update [of i g "LeaderReturned c (val_err (calls g ! c))"] show ?thesis
      by (auto simp: Do_step_def work_left_def)
  next
    case (Returned c r)
    with assms i show ?thesis by (simp add: Do_step_def)
  next
    case (LeaderReturned c r)
    with assms i show ?thesis by (simp add: Do_step_def)
  qed
qed

lemma exec_completes:
  assumes "sf_inv k g" and tot: "\<forall>x. fn x \<noteq> None"
  shows "\<exists>sched g'. exec k fn g sched = Some g' \<and> (\<forall>i<length (pcs g'). returned (pcs g' ! i))"
  using assms(1)
proof (induction "work_left g" arbitrary: g rule: less_induct)
  case less
  show ?case
  proof (cases "\<forall>i<length (pcs g). returned (pcs g ! i)")
    case True
    then have "exec k fn g [] = Some g \<and> (\<forall>i<length (pcs g). returned (pcs g ! i))"
      by simp
    then show ?thesis by blast
  next
    case False
    then obtain i where "i < length (pcs g)" "\<not> returned (pcs g ! i)"
      by blast
    from Do_step_enabled [OF less.prems tot this]
    obtain j g1 where g1: "Do_step k fn g j = Some g1"
      by auto
    from less.hyps [OF Do_step_work_left [OF g1] Do_step_inv [OF less.prems g1]]
    obtain sched g' where "exec k fn g1 sched = Some g'"
      "\<forall>i<length (pcs g'). returned (pcs g' ! i)"
      by blast
    with g1 have "exec k fn g (j # sched) = Some g' \<and>
                  (\<forall>i<length (pcs g'). returned (pcs g' ! i))"
      by simp
    then show ?thesis by blast
  qed
qed

text \<open>
  The proviso is needed. When \<open>fn\<close> does not return, the goroutine that called it
  stays in \<open>fn\<close> with its marker in the map, and a goroutine that joined its call
  stays in \<open>Wait\<close>: after the two entries no goroutine can move.
\<close>

lemma Do_blocked_example:
  "map_option pcs (exec ''k'' never_fn (cold 2) [0, 1]) = Some [Leading 0, Waiting 0] \<and>
   map_option (\<lambda>g. m g ''k'') (exec ''k'' never_fn (cold 2) [0, 1]) = Some (Some 0) \<and>
   exec ''k'' never_fn (cold 2) [0, 1, 0] = None \<and>
   exec ''k'' never_fn (cold 2) [0, 1, 1] = None"
  by (simp add: Do_step_def cold_def never_fn_def numeral_2_eq_2)

subsection \<open>What the callers get\<close>

lemma one_in_flight:
  assumes inv: "sf_inv k g" and i: "i < length (pcs g)" and j: "j < length (pcs g)"
    and l: "leads (pcs g ! i) c" "leads (pcs g ! j) d"
  shows "i = j"
proof -
  note D = sf_invD [OF inv]
  from D(1) [OF i l(1)] D(1) [OF j l(2)] have "c = d" by simp
  with D(2) [OF i j, of c] l leads_owns show ?thesis by blast
qed

lemma marker_removed:
  assumes inv: "sf_inv k g" and i: "i < length (pcs g)"
    and o: "owns (pcs g ! i) c" and nl: "\<not> leads (pcs g ! i) c"
  shows "m g k \<noteq> Some c"
proof
  note D = sf_invD [OF inv]
  assume "m g k = Some c"
  from D(3) [OF this] obtain j where j: "j < length (pcs g)" "leads (pcs g ! j) c"
    by blast
  with D(2) [OF i j(1), of c] o leads_owns have "i = j" by blast
  with j nl show False by simp
qed

text \<open>The map has no marker for the key exactly when no goroutine leads a call.\<close>

lemma marker_absent_iff:
  assumes inv: "sf_inv k g"
  shows "(m g k = None) = (\<forall>i<length (pcs g). \<forall>c. \<not> leads (pcs g ! i) c)"
proof
  note D = sf_invD [OF inv]
  assume "m g k = None"
  then show "\<forall>i<length (pcs g). \<forall>c. \<not> leads (pcs g ! i) c"
    using D(1) by fastforce
next
  note D = sf_invD [OF inv]
  assume a: "\<forall>i<length (pcs g). \<forall>c. \<not> leads (pcs g ! i) c"
  show "m g k = None"
  proof (rule ccontr)
    assume "m g k \<noteq> None"
    then obtain c where "m g k = Some c" by auto
    from D(3) [OF this] a show False by blast
  qed
qed

lemma idle_group:
  assumes inv: "sf_inv k g" and i: "i < length (pcs g)" and s: "pcs g ! i = Start"
    and r: "\<forall>j<length (pcs g). j \<noteq> i \<longrightarrow> returned (pcs g ! j)"
  shows "m g k = None"
proof -
  have "\<not> leads (pcs g ! j) c" if "j < length (pcs g)" for j c
  proof (cases "j = i")
    case True
    with s show ?thesis by simp
  next
    case False
    with r that have "returned (pcs g ! j)" by simp
    then show ?thesis by (cases "pcs g ! j") auto
  qed
  then show ?thesis
    by (simp add: marker_absent_iff [OF inv])
qed

text \<open>
  A caller that enters while the map has no marker makes a call of its own and calls
  \<open>fn\<close>; when that call of \<open>fn\<close> returns, its results are stored in the new call.
\<close>

lemma fresh_run:
  assumes i: "i < length (pcs g)" and s: "pcs g ! i = Start" and c: "m g k = None"
  shows "\<exists>g1. Do_step k fn g i = Some g1 \<and> pcs g1 ! i = Leading (length (calls g)) \<and>
           (\<forall>r. fn (runs g) = Some r \<longrightarrow>
              (\<exists>g2. Do_step k fn g1 i = Some g2 \<and> pcs g2 ! i = Ran (length (calls g)) \<and>
                    runs g2 = runs g + 1 \<and>
                    val_err (calls g2 ! length (calls g)) = Some r))"
  using assms by (simp add: Do_step_def Let_def)

lemma returned_result:
  assumes inv: "sf_inv k g" and res: "results_from fn g" and i: "i < length (pcs g)"
    and p: "pcs g ! i = Returned c r \<or> pcs g ! i = LeaderReturned c r"
  shows "c < length (calls g) \<and> r = val_err (calls g ! c) \<and> r \<noteq> None \<and>
         (\<exists>x<runs g. r = fn x)"
proof -
  from sf_invD(4) [OF inv i] p
  have c: "c < length (calls g)" "r = val_err (calls g ! c)" "val_err (calls g ! c) \<noteq> None"
    by auto
  with res obtain x where "x < runs g" "val_err (calls g ! c) = fn x"
    by (auto simp: results_from_def)
  with c show ?thesis by auto
qed

lemma single_call:
  assumes inv: "sf_inv k g" and res: "results_from fn g"
    and all: "\<forall>i<length (pcs g). returned (pcs g ! i)" and n: "0 < length (pcs g)"
    and one: "length (calls g) = 1"
  shows "runs g = 1 \<and> fn 0 \<noteq> None \<and>
         (\<forall>i<length (pcs g). pcs g ! i = Returned 0 (fn 0) \<or>
                              pcs g ! i = LeaderReturned 0 (fn 0))"
proof -
  from one obtain cl where cl: "calls g = [cl]"
    by (cases "calls g") auto
  have r: "c = 0 \<and> r = val_err cl \<and> val_err cl \<noteq> None"
    if "i < length (pcs g)" "pcs g ! i = Returned c r \<or> pcs g ! i = LeaderReturned c r" for i c r
    using sf_invD(4) [OF inv that(1)] that(2) cl by auto
  from all n have "returned (pcs g ! 0)" by simp
  then obtain c0 r0 where "pcs g ! 0 = Returned c0 r0 \<or> pcs g ! 0 = LeaderReturned c0 r0"
    by (cases "pcs g ! 0") auto
  from r [OF n this] have some: "val_err cl \<noteq> None" by simp
  then have runs1: "runs g = 1"
    using sf_invD(6) [OF inv] by (simp add: cl ran_def)
  from some res runs1 have v: "val_err cl = fn 0"
    by (auto simp: results_from_def cl)
  have "pcs g ! i = Returned 0 (fn 0) \<or> pcs g ! i = LeaderReturned 0 (fn 0)"
    if i: "i < length (pcs g)" for i
  proof -
    from all i have "returned (pcs g ! i)" by simp
    then obtain c r where p: "pcs g ! i = Returned c r \<or> pcs g ! i = LeaderReturned c r"
      by (cases "pcs g ! i") auto
    from r [OF i p] v p show ?thesis by auto
  qed
  with runs1 some v show ?thesis by auto
qed

text \<open>
  C1 (amended). Let \<open>n\<close> goroutines call \<open>Do(k, fn)\<close> on a group with nothing in
  flight, and take any interleaving of their steps. In every state it reaches:
  \<^item> at most one goroutine is between putting its call in the map and deleting it, so
    at most one \<open>fn\<close> is executing;
  \<^item> a caller that has returned got the pair stored in the call it joined, which is
    the result of one call of \<open>fn\<close>: the callers of one call get identical pairs;
  \<^item> \<open>fn\<close> has returned once for each call with results, not once overall;
  \<^item> the marker is out of the map before \<open>Do\<close> returns to the caller that made the
    call, and the map has no marker exactly when no caller is between putting its call
    in and deleting it;
  \<^item> every caller that enters while the map has no marker (all others having returned
    is one such case, a leader past its \<open>delete\<close> with waiters not yet woken another)
    makes a call of its own and calls \<open>fn\<close> afresh, and the results of that call of
    \<open>fn\<close>, if it returns, are stored in the new call;
  \<^item> if every call of \<open>fn\<close> returns, the interleaving can be completed: every caller
    returns (a call of \<open>fn\<close> that does not return leaves its callers in \<open>Do\<close>);
  \<^item> when all callers have returned and only one call was made, \<open>fn\<close> was called
    exactly once and all callers got its pair.
\<close>

theorem Do_generations:
  assumes e: "exec k fn (cold n) sched = Some g"
  shows "(\<forall>i<n. \<forall>j<n. \<forall>c d. leads (pcs g ! i) c \<and> leads (pcs g ! j) d \<longrightarrow> i = j) \<and>
         (\<forall>i<n. \<forall>c r. pcs g ! i = Returned c r \<or> pcs g ! i = LeaderReturned c r \<longrightarrow>
            c < length (calls g) \<and> r = val_err (calls g ! c) \<and> r \<noteq> None \<and>
            (\<exists>x<runs g. r = fn x)) \<and>
         runs g = ran (calls g) \<and>
         (\<forall>i<n. \<forall>c r. pcs g ! i = Deleted c \<or> pcs g ! i = LeaderReturned c r \<longrightarrow>
            m g k \<noteq> Some c) \<and>
         ((m g k = None) = (\<forall>i<n. \<forall>c. \<not> leads (pcs g ! i) c)) \<and>
         (\<forall>i<n. pcs g ! i = Start \<and> (\<forall>j<n. j \<noteq> i \<longrightarrow> returned (pcs g ! j)) \<longrightarrow>
            m g k = None) \<and>
         (\<forall>i<n. pcs g ! i = Start \<and> m g k = None \<longrightarrow>
            (\<exists>g1. Do_step k fn g i = Some g1 \<and> pcs g1 ! i = Leading (length (calls g)) \<and>
               (\<forall>r. fn (runs g) = Some r \<longrightarrow>
                  (\<exists>g2. Do_step k fn g1 i = Some g2 \<and> pcs g2 ! i = Ran (length (calls g)) \<and>
                        runs g2 = runs g + 1 \<and>
                        val_err (calls g2 ! length (calls g)) = Some r)))) \<and>
         ((\<forall>x. fn x \<noteq> None) \<longrightarrow>
            (\<exists>sched' g'. exec k fn g sched' = Some g' \<and> (\<forall>i<n. returned (pcs g' ! i)))) \<and>
         ((\<forall>i<n. returned (pcs g ! i)) \<and> 0 < n \<and> length (calls g) = 1 \<longrightarrow>
            runs g = 1 \<and> fn 0 \<noteq> None \<and>
            (\<forall>i<n. pcs g ! i = Returned 0 (fn 0) \<or> pcs g ! i = LeaderReturned 0 (fn 0)))"
proof -
  have inv: "sf_inv k g"
    using cold_inv e by (rule exec_inv)
  have res: "results_from fn g"
    using cold_results e by (rule exec_results)
  have len: "length (pcs g) = n"
    using exec_length [OF e] by (simp add: cold_def)
  have 1: "\<forall>i<n. \<forall>j<n. \<forall>c d. leads (pcs g ! i) c \<and> leads (pcs g ! j) d \<longrightarrow> i = j"
    using one_in_flight [OF inv] len by blast
  have 2: "\<forall>i<n. \<forall>c r. pcs g ! i = Returned c r \<or> pcs g ! i = LeaderReturned c r \<longrightarrow>
            c < length (calls g) \<and> r = val_err (calls g ! c) \<and> r \<noteq> None \<and>
            (\<exists>x<runs g. r = fn x)"
    using returned_result [OF inv res] len by blast
  have 3: "runs g = ran (calls g)"
    by (rule sf_invD(6) [OF inv])
  have 4: "\<forall>i<n. \<forall>c r. pcs g ! i = Deleted c \<or> pcs g ! i = LeaderReturned c r \<longrightarrow>
            m g k \<noteq> Some c"
  proof (intro allI impI)
    fix i c r
    assume "i < n" "pcs g ! i = Deleted c \<or> pcs g ! i = LeaderReturned c r"
    then show "m g k \<noteq> Some c"
      using marker_removed [OF inv, of i c] len by auto
  qed
  have 5: "(m g k = None) = (\<forall>i<n. \<forall>c. \<not> leads (pcs g ! i) c)"
    using marker_absent_iff [OF inv] len by simp
  have 6: "\<forall>i<n. pcs g ! i = Start \<and> (\<forall>j<n. j \<noteq> i \<longrightarrow> returned (pcs g ! j)) \<longrightarrow>
            m g k = None"
    using idle_group [OF inv] len by simp
  have 7: "\<forall>i<n. pcs g ! i = Start \<and> m g k = None \<longrightarrow>
            (\<exists>g1. Do_step k fn g i = Some g1 \<and> pcs g1 ! i = Leading (length (calls g)) \<and>
               (\<forall>r. fn (runs g) = Some r \<longrightarrow>
                  (\<exists>g2. Do_step k fn g1 i = Some g2 \<and> pcs g2 ! i = Ran (length (calls g)) \<and>
                        runs g2 = runs g + 1 \<and>
                        val_err (calls g2 ! length (calls g)) = Some r)))"
  proof (intro allI impI)
    fix i
    assume "i < n" "pcs g ! i = Start \<and> m g k = None"
    then show "\<exists>g1. Do_step k fn g i = Some g1 \<and> pcs g1 ! i = Leading (length (calls g)) \<and>
               (\<forall>r. fn (runs g) = Some r \<longrightarrow>
                  (\<exists>g2. Do_step k fn g1 i = Some g2 \<and> pcs g2 ! i = Ran (length (calls g)) \<and>
                        runs g2 = runs g + 1 \<and>
                        val_err (calls g2 ! length (calls g)) = Some r))"
      using len by (intro fresh_run) simp_all
  qed
  have 8: "(\<forall>x. fn x \<noteq> None) \<longrightarrow>
            (\<exists>sched' g'. exec k fn g sched' = Some g' \<and> (\<forall>i<n. returned (pcs g' ! i)))"
  proof
    assume tot: "\<forall>x. fn x \<noteq> None"
    from exec_completes [OF inv tot] obtain sched' g' where c: "exec k fn g sched' = Some g'"
      "\<forall>i<length (pcs g'). returned (pcs g' ! i)"
      by blast
    from exec_length [OF c(1)] len c
    show "\<exists>sched' g'. exec k fn g sched' = Some g' \<and> (\<forall>i<n. returned (pcs g' ! i))"
      by auto
  qed
  have 9: "(\<forall>i<n. returned (pcs g ! i)) \<and> 0 < n \<and> length (calls g) = 1 \<longrightarrow>
            runs g = 1 \<and> fn 0 \<noteq> None \<and>
            (\<forall>i<n. pcs g ! i = Returned 0 (fn 0) \<or> pcs g ! i = LeaderReturned 0 (fn 0))"
    using single_call [OF inv res] len by simp
  from 1 2 3 4 5 6 7 8 9 show ?thesis by (intro conjI)
qed

text \<open>
  Two callers, the second entering while the first is in \<open>fn\<close>: one call, one
  execution, the same pair for both. And three callers, the third still at its start
  when the first is past its \<open>delete\<close> and the second not yet woken: the map has no
  marker, the third makes a call of its own and calls \<open>fn\<close> afresh, and all three can
  return.
\<close>

theorem Do_generations_witness:
  "pcs (the (exec ''k'' counting_fn (cold 2) [0, 1, 0, 0, 0, 0, 1]))
     = [LeaderReturned 0 (counting_fn 0), Returned 0 (counting_fn 0)] \<and>
   runs (the (exec ''k'' counting_fn (cold 2) [0, 1, 0, 0, 0, 0, 1])) = 1 \<and>
   length (calls (the (exec ''k'' counting_fn (cold 2) [0, 1, 0, 0, 0, 0, 1]))) = 1 \<and>
   pcs (the (exec ''k'' counting_fn (cold 3) [0, 1, 0, 0, 0])) = [Deleted 0, Waiting 0, Start] \<and>
   m (the (exec ''k'' counting_fn (cold 3) [0, 1, 0, 0, 0])) ''k'' = None \<and>
   (\<exists>g1 g2. Do_step ''k'' counting_fn (the (exec ''k'' counting_fn (cold 3) [0, 1, 0, 0, 0])) 2
              = Some g1 \<and>
            pcs g1 ! 2 = Leading 1 \<and> Do_step ''k'' counting_fn g1 2 = Some g2 \<and>
            pcs g2 ! 2 = Ran 1 \<and> runs g2 = 2 \<and> val_err (calls g2 ! 1) = Some 1) \<and>
   (\<exists>sched' g'. exec ''k'' counting_fn (the (exec ''k'' counting_fn (cold 3) [0, 1, 0, 0, 0])) sched'
              = Some g' \<and>
            returned (pcs g' ! 0) \<and> returned (pcs g' ! 1) \<and> returned (pcs g' ! 2))"
proof -
  let ?e = "exec ''k'' counting_fn (cold 2) [0, 1, 0, 0, 0, 0, 1]"
  have p: "map_option pcs ?e = Some [LeaderReturned 0 (Some 0), Returned 0 (Some 0)]"
    by (simp add: Do_step_def cold_def counting_fn_def numeral_2_eq_2)
  have c: "map_option calls ?e = Some [\<lparr>wg = 0, val_err = Some 0\<rparr>]"
    by (simp add: Do_step_def cold_def counting_fn_def numeral_2_eq_2)
  from p obtain g where g: "?e = Some g" by auto
  from p g have p': "pcs g = [LeaderReturned 0 (Some 0), Returned 0 (Some 0)]"
    by simp
  from c g have c': "length (calls g) = 1"
    by simp
  have all: "\<forall>i<2. returned (pcs g ! i)"
    unfolding p' by (simp add: less_Suc_eq numeral_2_eq_2)
  have pre: "(\<forall>i<2. returned (pcs g ! i)) \<and> (0::nat) < 2 \<and> length (calls g) = 1"
    using all c' by simp
  note t = Do_generations [OF g]
  note t9 = t [THEN conjunct2, THEN conjunct2, THEN conjunct2, THEN conjunct2,
      THEN conjunct2, THEN conjunct2, THEN conjunct2, THEN conjunct2]
  from t9 pre have r1: "runs g = 1"
    by blast
  let ?f = "exec ''k'' counting_fn (cold 3) [0, 1, 0, 0, 0]"
  have q: "map_option pcs ?f = Some [Deleted 0, Waiting 0, Start]"
    by (simp add: Do_step_def cold_def counting_fn_def numeral_3_eq_3)
  have qc: "map_option calls ?f = Some [\<lparr>wg = 0, val_err = Some 0\<rparr>]"
    by (simp add: Do_step_def cold_def counting_fn_def numeral_3_eq_3)
  from q obtain f where f: "?f = Some f" by auto
  from q f have q': "pcs f = [Deleted 0, Waiting 0, Start]"
    by simp
  from qc f have lc: "length (calls f) = 1" and cf: "calls f = [\<lparr>wg = 0, val_err = Some 0\<rparr>]"
    by simp_all
  note u = Do_generations [OF f]
  note u3 = u [THEN conjunct2, THEN conjunct2, THEN conjunct1]
  note u5 = u [THEN conjunct2, THEN conjunct2, THEN conjunct2, THEN conjunct2, THEN conjunct1]
  note u7 = u [THEN conjunct2, THEN conjunct2, THEN conjunct2, THEN conjunct2,
      THEN conjunct2, THEN conjunct2, THEN conjunct1]
  note u8 = u [THEN conjunct2, THEN conjunct2, THEN conjunct2, THEN conjunct2,
      THEN conjunct2, THEN conjunct2, THEN conjunct2, THEN conjunct1]
  have "\<forall>i<3. \<forall>c. \<not> leads (pcs f ! i) c"
    unfolding q' by (simp add: less_Suc_eq numeral_3_eq_3)
  with u5 have m0: "m f ''k'' = None"
    by blast
  from u3 have rf: "runs f = 1"
    by (simp add: cf ran_def)
  have s2: "pcs f ! 2 = Start \<and> m f ''k'' = None"
    using m0 by (simp add: q')
  have two: "(2::nat) < 3" by simp
  from u7 two s2 obtain g1 where g1: "Do_step ''k'' counting_fn f 2 = Some g1"
      "pcs g1 ! 2 = Leading (length (calls f))"
      "\<forall>r. counting_fn (runs f) = Some r \<longrightarrow>
         (\<exists>g2. Do_step ''k'' counting_fn g1 2 = Some g2 \<and> pcs g2 ! 2 = Ran (length (calls f)) \<and>
               runs g2 = runs f + 1 \<and> val_err (calls g2 ! length (calls f)) = Some r)"
    by blast
  have "counting_fn (runs f) = Some 1"
    by (simp add: rf counting_fn_def)
  with g1(3) obtain g2 where g2: "Do_step ''k'' counting_fn g1 2 = Some g2"
      "pcs g2 ! 2 = Ran (length (calls f))" "runs g2 = runs f + 1"
      "val_err (calls g2 ! length (calls f)) = Some 1"
    by blast
  have fresh: "\<exists>g1 g2. Do_step ''k'' counting_fn f 2 = Some g1 \<and>
            pcs g1 ! 2 = Leading 1 \<and> Do_step ''k'' counting_fn g1 2 = Some g2 \<and>
            pcs g2 ! 2 = Ran 1 \<and> runs g2 = 2 \<and> val_err (calls g2 ! 1) = Some 1"
    using g1(1,2) g2 by (intro exI [of _ g1] exI [of _ g2]) (simp add: lc rf)
  have "\<forall>x. counting_fn x \<noteq> None"
    by (simp add: counting_fn_def)
  with u8 have "\<exists>sched' g'. exec ''k'' counting_fn f sched' = Some g' \<and>
            (\<forall>i<3. returned (pcs g' ! i))"
    by blast
  then have fin: "\<exists>sched' g'. exec ''k'' counting_fn f sched' = Some g' \<and>
            returned (pcs g' ! 0) \<and> returned (pcs g' ! 1) \<and> returned (pcs g' ! 2)"
    by (metis two zero_less_numeral one_less_numeral_iff semiring_norm(77))
  have A: "pcs g = [LeaderReturned 0 (counting_fn 0), Returned 0 (counting_fn 0)]"
    by (simp add: p' counting_fn_def)
  from A r1 c' q' m0 fresh fin show ?thesis
    unfolding g f option.sel by (intro conjI)
qed

text \<open>
  C1 as stated fails: two callers start together on a cold group, the first runs
  \<open>Do\<close> to its end before the second takes the mutex. The second finds no marker,
  makes a call of its own and calls \<open>fn\<close> again: two executions, and the callers get
  the different pairs of the two executions.
\<close>

theorem Do_twice_counterexample:
  "map_option pcs (exec ''k'' counting_fn (cold 2) [0, 0, 0, 0, 0, 1, 1, 1, 1, 1])
     = Some [LeaderReturned 0 (Some 0), LeaderReturned 1 (Some 1)] \<and>
   map_option runs (exec ''k'' counting_fn (cold 2) [0, 0, 0, 0, 0, 1, 1, 1, 1, 1]) = Some 2"
  by (simp add: Do_step_def cold_def counting_fn_def numeral_2_eq_2)

end
